theory Spec2Isabelle
  imports Main "HOL-Library.Char_ord" "HOL-Library.List_Lexorder"
begin

section \<open>Data model of the Dispatch companion plugin\<close>

text \<open>
  The plugin object of \<^verbatim>\<open>DispatchCompanion\<close> is a record of its mutable fields; every
  method is a function from the host environment and the plugin record to the new plugin
  record (and a result, where the method returns one). JavaScript numbers that hold word
  counts and millisecond timestamps are integers; \<^verbatim>\<open>T | null\<close> is \<open>T option\<close>.
\<close>

record DispatchSettings =
  blogFolder :: string
  enableStreaks :: bool
  celebrateMilestones :: bool
  sessionWordCount :: bool

record DispatchStatusFile =
  path :: string
  slug :: string
  title :: "string option"
  published_url :: "string option"
  warnings :: "string list"
  word_count :: int
  is_safe :: bool
  unlisted :: bool
  has_password :: bool
  modified :: int

record DispatchStats =
  total :: int
  drafts :: int
  published :: int
  total_words :: int

record DispatchStatus =
  updated_at :: string
  last_publish :: "string option"
  files :: "DispatchStatusFile list"
  stats :: DispatchStats

text \<open>
  \<^verbatim>\<open>notes: Record<string, string>\<close> is a map from paths to notes; \<^verbatim>\<open>ready\<close> is an
  array, so order and duplicates are kept.
\<close>

record DispatchQueue =
  queue_updated_at :: string
  ready :: "string list"
  queue_notes :: "string \<rightharpoonup> string"

record StreakData =
  dates :: "string list"
  publishDates :: "string list"

text \<open>The notices the plugin shows (\<^verbatim>\<open>new Notice(...)\<close>), in the order shown.\<close>

datatype notice =
  MarkedReady string
  | Unmarked string
  | MilestoneNotice int
  | PublishNotice string

record plugin =
  settings :: DispatchSettings
  dispatchStatus :: "DispatchStatus option"
  dispatchQueue :: "DispatchQueue option"
  dailyWordCountCache :: int
  dailyWordCountDate :: string
  sessionStartWordCount :: int
  sessionWordsWritten :: int
  lastMilestoneCelebrated :: int
  streakData :: StreakData
  shown :: "notice list"

subsection \<open>The host application\<close>

text \<open>
  A calendar day: what a \<^verbatim>\<open>moment\<close> value is when it is compared and formatted at
  granularity \<^verbatim>\<open>"day"\<close>.
\<close>

record cal_date =
  year :: int
  month :: nat
  day :: nat

record TFile =
  file_path :: string
  file_name :: string
  stat_mtime :: int
  stat_size :: int

datatype abstract_file = File TFile | Folder string

record section_cache =
  section_type :: string
  start_line :: int
  end_line :: int

text \<open>
  What the plugin reads from its host at the moment of a call: the clock, the vault and the
  metadata cache. \<open>today\<close> is the local calendar day of \<^verbatim>\<open>moment()\<close>, \<open>day_start\<close> and
  \<open>day_end\<close> are \<^verbatim>\<open>moment().startOf("day").valueOf()\<close> and its \<^verbatim>\<open>endOf\<close>.
  \<open>vault_read\<close> and \<open>json_status\<close> return \<open>None\<close> where \<^verbatim>\<open>vault.read\<close> rejects
  and where \<^verbatim>\<open>JSON.parse\<close> throws (or yields no object); \<open>date_ms\<close> returns \<open>None\<close>
  where \<^verbatim>\<open>new Date(s).getTime()\<close> is NaN; \<open>sections\<close> returns \<open>None\<close> where the file
  has no cache entry or the entry has no sections; \<open>vault_write_ok\<close> says whether the
  vault accepts the next write.
\<close>

record host =
  now_ms :: int
  now_iso :: string
  date_ms :: "string \<Rightarrow> int option"
  today :: cal_date
  day_start :: int
  day_end :: int
  getAbstractFileByPath :: "string \<Rightarrow> abstract_file option"
  getMarkdownFiles :: "TFile list"
  sections :: "string \<Rightarrow> section_cache list option"
  vault_read :: "string \<Rightarrow> string option"
  json_status :: "string \<Rightarrow> DispatchStatus option"
  vault_write_ok :: bool

text \<open>JavaScript truthiness of an optional string: present and not empty.\<close>

definition truthy :: "string option \<Rightarrow> bool" where
  "truthy s = (case s of None \<Rightarrow> False | Some t \<Rightarrow> t \<noteq> [])"

section \<open>Calendar days and their \<^verbatim>\<open>YYYY-MM-DD\<close> strings\<close>

text \<open>
  The plugin keeps days as strings printed by \<^verbatim>\<open>moment().format("YYYY-MM-DD")\<close> and reads
  them back with \<^verbatim>\<open>moment(s, "YYYY-MM-DD")\<close>. \<open>zeroFill\<close> is moment's helper of that name:
  the decimal digits of a number, padded with zeros to a minimum width. A year outside
  0 to 9999 is printed with a sign, as moment does.
\<close>

definition digit_char :: "nat \<Rightarrow> char" where
  "digit_char n = char_of (48 + n)"

definition is_digit :: "char \<Rightarrow> bool" where
  "is_digit c = (48 \<le> (of_char c :: nat) \<and> (of_char c :: nat) \<le> 57)"

definition digit_val :: "char \<Rightarrow> nat" where
  "digit_val c = of_char c - 48"

function zeroFill :: "nat \<Rightarrow> nat \<Rightarrow> string" where
  "zeroFill n w =
     (if n < 10 \<and> w \<le> 1 then [digit_char n]
      else zeroFill (n div 10) (w - 1) @ [digit_char (n mod 10)])"
  by pat_completeness auto
termination
  by (relation "measure (\<lambda>(n, w). n + w)") auto

declare zeroFill.simps [simp del]

definition format_year :: "int \<Rightarrow> string" where
  "format_year y =
     (if y < 0 then CHR ''-'' # zeroFill (nat (- y)) 4
      else if y \<le> 9999 then zeroFill (nat y) 4
      else CHR ''+'' # zeroFill (nat y) 1)"

definition format_date :: "cal_date \<Rightarrow> string" where
  "format_date d =
     format_year (year d) @ ''-'' @ zeroFill (month d) 2 @ ''-'' @ zeroFill (day d) 2"

text \<open>
  Reading a day. A string of the shape four digits, hyphen, two digits, hyphen, two digits
  is read as that year, month and day; if no such calendar day exists the moment is
  invalid (\<open>None\<close>) and compares as neither the same as nor before any day. Strings of
  another shape are outside the model (moment's forgiving parser may still read a date
  from some of them); they are \<open>None\<close> here and the theorems on streaks assume the shape.
\<close>

definition number :: "string \<Rightarrow> nat" where
  "number s = foldl (\<lambda>a c. 10 * a + digit_val c) 0 s"

definition isLeapYear :: "int \<Rightarrow> bool" where
  "isLeapYear y = ((y mod 4 = 0 \<and> y mod 100 \<noteq> 0) \<or> y mod 400 = 0)"

definition daysInMonth :: "int \<Rightarrow> nat \<Rightarrow> nat" where
  "daysInMonth y m =
     (if m = 2 then (if isLeapYear y then 29 else 28)
      else if m = 4 \<or> m = 6 \<or> m = 9 \<or> m = 11 then 30 else 31)"

definition calendar_day :: "cal_date \<Rightarrow> bool" where
  "calendar_day d =
     (1 \<le> month d \<and> month d \<le> 12 \<and> 1 \<le> day d \<and> day d \<le> daysInMonth (year d) (month d))"

text \<open>The calendar days whose year is printed with exactly four digits.\<close>

definition four_digit_year :: "cal_date \<Rightarrow> bool" where
  "four_digit_year d = (calendar_day d \<and> 0 \<le> year d \<and> year d \<le> 9999)"

definition parse_date :: "string \<Rightarrow> cal_date option" where
  "parse_date s =
     (if length s = 10 \<and> s ! 4 = CHR ''-'' \<and> s ! 7 = CHR ''-''
         \<and> list_all is_digit (take 4 s) \<and> list_all is_digit (take 2 (drop 5 s))
         \<and> list_all is_digit (drop 8 s)
      then (let d = \<lparr>year = int (number (take 4 s)), month = number (take 2 (drop 5 s)),
                      day = number (drop 8 s)\<rparr>
            in if calendar_day d then Some d else None)
      else None)"

text \<open>\<^verbatim>\<open>m.subtract(1, "day")\<close> and \<^verbatim>\<open>a.isBefore(b, "day")\<close> on calendar days.\<close>

definition subtract_day :: "cal_date \<Rightarrow> cal_date" where
  "subtract_day d =
     (if 1 < day d then d\<lparr>day := day d - 1\<rparr>
      else if 1 < month d
        then d\<lparr>month := month d - 1, day := daysInMonth (year d) (month d - 1)\<rparr>
      else \<lparr>year = year d - 1, month = 12, day = 31\<rparr>)"

definition isBefore :: "cal_date \<Rightarrow> cal_date \<Rightarrow> bool" where
  "isBefore a b =
     (year a < year b \<or> (year a = year b \<and>
        (month a < month b \<or> (month a = month b \<and> day a < day b))))"

section \<open>Publish queue\<close>

definition empty_queue :: "host \<Rightarrow> DispatchQueue" where
  "empty_queue h = \<lparr>queue_updated_at = now_iso h, ready = [], queue_notes = Map.empty\<rparr>"

text \<open>
  \<^verbatim>\<open>saveDispatchQueue\<close> stamps the queue and writes it to the vault; what the model keeps
  of the write is whether it succeeded, since a rejected write ends the calling method
  before its notice.
\<close>

definition saveDispatchQueue :: "host \<Rightarrow> plugin \<Rightarrow> plugin" where
  "saveDispatchQueue h st =
     (case dispatchQueue st of
        None \<Rightarrow> st
      | Some q \<Rightarrow> st\<lparr>dispatchQueue := Some (q\<lparr>queue_updated_at := now_iso h\<rparr>)\<rparr>)"

definition show_notice :: "notice \<Rightarrow> plugin \<Rightarrow> plugin" where
  "show_notice n st = st\<lparr>shown := shown st @ [n]\<rparr>"

text \<open>The statements after \<^verbatim>\<open>await this.saveDispatchQueue()\<close> run only if the write went through.\<close>

definition after_save :: "host \<Rightarrow> (plugin \<Rightarrow> plugin) \<Rightarrow> plugin \<Rightarrow> plugin" where
  "after_save h k st = (if vault_write_ok h then k st else st)"

definition markReady :: "host \<Rightarrow> TFile \<Rightarrow> string option \<Rightarrow> plugin \<Rightarrow> plugin" where
  "markReady h file note st =
     (let q0 = (case dispatchQueue st of None \<Rightarrow> empty_queue h | Some q \<Rightarrow> q);
          q1 = (if file_path file \<notin> set (ready q0)
                then q0\<lparr>ready := ready q0 @ [file_path file]\<rparr> else q0);
          q2 = (if truthy note
                then q1\<lparr>queue_notes := (queue_notes q1)(file_path file \<mapsto> the note)\<rparr>
                else q1\<lparr>queue_notes :=
                       (queue_notes q1)(file_path file \<mapsto> ''Ready for review'')\<rparr>)
      in after_save h (show_notice (MarkedReady (file_name file)))
           (saveDispatchQueue h (st\<lparr>dispatchQueue := Some q2\<rparr>)))"

definition unmarkReady :: "host \<Rightarrow> TFile \<Rightarrow> plugin \<Rightarrow> plugin" where
  "unmarkReady h file st =
     (case dispatchQueue st of
        None \<Rightarrow> st
      | Some q \<Rightarrow>
          (let q1 = q\<lparr>ready := filter (\<lambda>p. p \<noteq> file_path file) (ready q)\<rparr>;
               q2 = q1\<lparr>queue_notes := (queue_notes q1)(file_path file := None)\<rparr>
           in after_save h (show_notice (Unmarked (file_name file)))
                (saveDispatchQueue h (st\<lparr>dispatchQueue := Some q2\<rparr>))))"

definition isFileReady :: "plugin \<Rightarrow> string \<Rightarrow> bool" where
  "isFileReady st p = (case dispatchQueue st of None \<Rightarrow> False | Some q \<Rightarrow> p \<in> set (ready q))"

text \<open>The \<^verbatim>\<open>ready\<close> list and \<^verbatim>\<open>notes\<close> map of a plugin, where a queue is held.\<close>

definition ready_of :: "plugin \<Rightarrow> string list option" where
  "ready_of st = map_option ready (dispatchQueue st)"

definition notes_of :: "plugin \<Rightarrow> (string \<rightharpoonup> string) option" where
  "notes_of st = map_option queue_notes (dispatchQueue st)"

text \<open>The queue invariant: every key of \<^verbatim>\<open>notes\<close> is an element of \<^verbatim>\<open>ready\<close>.\<close>

definition queue_inv :: "plugin \<Rightarrow> bool" where
  "queue_inv st =
     (case dispatchQueue st of None \<Rightarrow> True | Some q \<Rightarrow> dom (queue_notes q) \<subseteq> set (ready q))"

section \<open>Streaks\<close>

text \<open>
  \<^verbatim>\<open>recordWritingDay\<close> and \<^verbatim>\<open>recordPublishDay\<close> append today's string if it is not in
  the list and keep the last 365 entries (\<^verbatim>\<open>slice(-365)\<close>). The write of the plugin data
  that follows (\<^verbatim>\<open>saveStreakData\<close>) is not awaited and changes no field of the plugin.
\<close>

definition keep_last :: "nat \<Rightarrow> 'a list \<Rightarrow> 'a list" where
  "keep_last n xs = (if n < length xs then drop (length xs - n) xs else xs)"

definition recordWritingDay :: "host \<Rightarrow> plugin \<Rightarrow> plugin" where
  "recordWritingDay h st =
     (let day_str = format_date (today h); sd = streakData st
      in if day_str \<notin> set (dates sd)
         then st\<lparr>streakData := sd\<lparr>dates := keep_last 365 (dates sd @ [day_str])\<rparr>\<rparr>
         else st)"

definition recordPublishDay :: "host \<Rightarrow> plugin \<Rightarrow> plugin" where
  "recordPublishDay h st =
     (let day_str = format_date (today h); sd = streakData st
      in if day_str \<notin> set (publishDates sd)
         then st\<lparr>streakData :=
                  sd\<lparr>publishDates := keep_last 365 (publishDates sd @ [day_str])\<rparr>\<rparr>
         else st)"

text \<open>
  The loop of \<^verbatim>\<open>getWritingStreak\<close> over the sorted strings: a day equal to the expected
  one counts and moves the expected day one back; a day before the expected one ends the
  loop; any other entry is passed over.
\<close>

fun streak_loop :: "string list \<Rightarrow> cal_date \<Rightarrow> nat \<Rightarrow> nat" where
  "streak_loop [] expected streak = streak"
| "streak_loop (dateStr # rest) expected streak =
     (case parse_date dateStr of
        None \<Rightarrow> streak_loop rest expected streak
      | Some date \<Rightarrow>
          if date = expected then streak_loop rest (subtract_day expected) (streak + 1)
          else if isBefore date expected then streak
          else streak_loop rest expected streak)"

text \<open>
  \<^verbatim>\<open>[...dates].sort().reverse()\<close>: the default sort compares strings by code units, which
  is the lexicographic order of character lists.
\<close>

definition getWritingStreak :: "host \<Rightarrow> plugin \<Rightarrow> nat" where
  "getWritingStreak h st =
     (let ds = rev (sort (dates (streakData st)))
      in if ds = [] then 0 else streak_loop ds (today h) 0)"

section \<open>Status snapshot\<close>

text \<open>
  \<^verbatim>\<open>celebratePublish\<close> records the publish day and shows one notice. The notice starts with
  \<^verbatim>\<open>Published: <slug>\<close>; its further lines (publish streak, publish count, drafts left)
  are not modelled.
\<close>

definition celebratePublish :: "host \<Rightarrow> string \<Rightarrow> plugin \<Rightarrow> plugin" where
  "celebratePublish h published_slug st =
     show_notice (PublishNotice published_slug) (recordPublishDay h st)"

text \<open>
  \<^verbatim>\<open>loadDispatchStatus\<close> of the variant with streaks. The \<^verbatim>\<open>try\<close> block covers the read
  and the parse: either failing leads to the \<^verbatim>\<open>catch\<close>, which clears the snapshot. The
  \<^verbatim>\<open>if (file && file instanceof TFile)\<close> around them has no \<^verbatim>\<open>else\<close>.
\<close>

definition publish_detected :: "plugin \<Rightarrow> DispatchStatus \<Rightarrow> bool" where
  "publish_detected st newStatus =
     (truthy (last_publish newStatus) \<and> enableStreaks (settings st) \<and>
      (case dispatchStatus st of
         None \<Rightarrow> True
       | Some held \<Rightarrow> last_publish held \<noteq> last_publish newStatus))"

definition loadDispatchStatus :: "host \<Rightarrow> plugin \<Rightarrow> plugin" where
  "loadDispatchStatus h st =
     (case getAbstractFileByPath h ''.dispatch/status.json'' of
        Some (File file) \<Rightarrow>
          (case vault_read h (file_path file) of
             None \<Rightarrow> st\<lparr>dispatchStatus := None\<rparr>
           | Some content \<Rightarrow>
               (case json_status h content of
                  None \<Rightarrow> st\<lparr>dispatchStatus := None\<rparr>
                | Some newStatus \<Rightarrow>
                    (let st1 = (if publish_detected st newStatus
                                then celebratePublish h (the (last_publish newStatus)) st
                                else st)
                     in st1\<lparr>dispatchStatus := Some newStatus\<rparr>)))
      | _ \<Rightarrow> st)"

text \<open>The same method in the variant without streaks (\<^verbatim>\<open>main.ts\<close>).\<close>

definition loadDispatchStatus_plain :: "host \<Rightarrow> plugin \<Rightarrow> plugin" where
  "loadDispatchStatus_plain h st =
     (case getAbstractFileByPath h ''.dispatch/status.json'' of
        Some (File file) \<Rightarrow>
          (case vault_read h (file_path file) of
             None \<Rightarrow> st\<lparr>dispatchStatus := None\<rparr>
           | Some content \<Rightarrow>
               (case json_status h content of
                  None \<Rightarrow> st\<lparr>dispatchStatus := None\<rparr>
                | Some newStatus \<Rightarrow> st\<lparr>dispatchStatus := Some newStatus\<rparr>))
      | _ \<Rightarrow> st)"

definition isDispatchFresh :: "host \<Rightarrow> plugin \<Rightarrow> bool" where
  "isDispatchFresh h st =
     (case dispatchStatus st of
        None \<Rightarrow> False
      | Some s \<Rightarrow>
          (case date_ms h (updated_at s) of
             None \<Rightarrow> False
           | Some updatedAt \<Rightarrow>
               (let fiveMinutesAgo = now_ms h - 5 * 60 * 1000
                in updatedAt > fiveMinutesAgo)))"

text \<open>
  The time since \<^verbatim>\<open>updated_at\<close>, in milliseconds, where a snapshot is held and its
  timestamp can be read.
\<close>

definition snapshot_age :: "host \<Rightarrow> plugin \<Rightarrow> int option" where
  "snapshot_age h st =
     (case dispatchStatus st of
        None \<Rightarrow> None
      | Some s \<Rightarrow> map_option (\<lambda>u. now_ms h - u) (date_ms h (updated_at s)))"

section \<open>Word counts\<close>

definition startsWith :: "string \<Rightarrow> string \<Rightarrow> bool" where
  "startsWith s p = (take (length p) s = p)"

definition isBlogFile :: "plugin \<Rightarrow> TFile \<Rightarrow> bool" where
  "isBlogFile st file = startsWith (file_path file) (blogFolder (settings st) @ ''/'')"

definition modified_today :: "host \<Rightarrow> TFile \<Rightarrow> bool" where
  "modified_today h file = (stat_mtime file \<ge> day_start h \<and> stat_mtime file \<le> day_end h)"

text \<open>
  The two loops of \<^verbatim>\<open>getDailyWordCount\<close>, each adding to the running \<^verbatim>\<open>wordCount\<close>:
  over the sections of the blog files modified today, and over the files of the snapshot.
\<close>

fun sections_loop :: "section_cache list \<Rightarrow> int \<Rightarrow> int" where
  "sections_loop [] wordCount = wordCount"
| "sections_loop (s # rest) wordCount =
     (if section_type s = ''paragraph'' \<or> section_type s = ''heading''
      then (let lineCount = end_line s - start_line s + 1
            in sections_loop rest (wordCount + lineCount * 10))
      else sections_loop rest wordCount)"

fun files_loop :: "host \<Rightarrow> TFile list \<Rightarrow> int \<Rightarrow> int" where
  "files_loop h [] wordCount = wordCount"
| "files_loop h (file # rest) wordCount =
     (if modified_today h file
      then (case sections h (file_path file) of
              Some secs \<Rightarrow> files_loop h rest (sections_loop secs wordCount)
            | None \<Rightarrow> files_loop h rest wordCount)
      else files_loop h rest wordCount)"

fun status_loop :: "host \<Rightarrow> DispatchStatusFile list \<Rightarrow> int \<Rightarrow> int" where
  "status_loop h [] wordCount = wordCount"
| "status_loop h (sf # rest) wordCount =
     (case getAbstractFileByPath h (path sf) of
        Some (File vaultFile) \<Rightarrow>
          (if modified_today h vaultFile
           then status_loop h rest (wordCount + word_count sf)
           else status_loop h rest wordCount)
      | _ \<Rightarrow> status_loop h rest wordCount)"

definition getDailyWordCount :: "host \<Rightarrow> plugin \<Rightarrow> int \<times> plugin" where
  "getDailyWordCount h st =
     (let day_str = format_date (today h)
      in if dailyWordCountDate st = day_str then (dailyWordCountCache st, st)
         else
           (let blog_files = filter (isBlogFile st) (getMarkdownFiles h);
                wordCount = files_loop h blog_files 0;
                wordCount = (case dispatchStatus st of
                               Some s \<Rightarrow> status_loop h (files s) 0
                             | None \<Rightarrow> wordCount)
            in (wordCount, st\<lparr>dailyWordCountCache := wordCount,
                               dailyWordCountDate := day_str\<rparr>)))"

text \<open>
  The two quantities the specification names. The approximation: ten words for every line
  of every paragraph or heading section of the blog files modified today. The snapshot
  count: the \<^verbatim>\<open>word_count\<close> of every snapshot file whose path is a vault file modified
  today.
\<close>

definition section_lines :: "section_cache \<Rightarrow> int" where
  "section_lines s =
     (if section_type s = ''paragraph'' \<or> section_type s = ''heading''
      then end_line s - start_line s + 1 else 0)"

definition line_span_approximation :: "host \<Rightarrow> plugin \<Rightarrow> int" where
  "line_span_approximation h st =
     (\<Sum>file \<leftarrow> filter (\<lambda>f. isBlogFile st f \<and> modified_today h f) (getMarkdownFiles h).
        case sections h (file_path file) of
          None \<Rightarrow> 0
        | Some secs \<Rightarrow> 10 * (\<Sum>s \<leftarrow> secs. section_lines s))"

definition vault_file_modified_today :: "host \<Rightarrow> string \<Rightarrow> bool" where
  "vault_file_modified_today h p =
     (case getAbstractFileByPath h p of
        Some (File vaultFile) \<Rightarrow> modified_today h vaultFile
      | _ \<Rightarrow> False)"

definition snapshot_words_today :: "host \<Rightarrow> DispatchStatus \<Rightarrow> int" where
  "snapshot_words_today h s =
     (\<Sum>sf \<leftarrow> filter (\<lambda>sf. vault_file_modified_today h (path sf)) (files s). word_count sf)"

section \<open>Session words and milestones\<close>

text \<open>\<^verbatim>\<open>Math.round(size / 5)\<close> on an integer size: the floor of \<open>size / 5 + 1 / 2\<close>.\<close>

definition round_fifth :: "int \<Rightarrow> int" where
  "round_fifth n = (2 * n + 5) div 10"

definition getTotalBlogWords :: "host \<Rightarrow> plugin \<Rightarrow> int" where
  "getTotalBlogWords h st =
     (case dispatchStatus st of
        Some s \<Rightarrow> total_words (stats s)
      | None \<Rightarrow>
          (\<Sum>file \<leftarrow> filter (isBlogFile st) (getMarkdownFiles h). round_fifth (stat_size file)))"

definition milestones :: "int list" where
  "milestones = [100, 250, 500, 750, 1000, 1500, 2000, 3000, 5000]"

definition celebrateMilestone :: "int \<Rightarrow> plugin \<Rightarrow> plugin" where
  "celebrateMilestone words st = show_notice (MilestoneNotice words) st"

fun milestone_loop :: "int list \<Rightarrow> plugin \<Rightarrow> plugin" where
  "milestone_loop [] st = st"
| "milestone_loop (milestone # rest) st =
     (if sessionWordsWritten st \<ge> milestone \<and> lastMilestoneCelebrated st < milestone
      then celebrateMilestone milestone (st\<lparr>lastMilestoneCelebrated := milestone\<rparr>)
      else milestone_loop rest st)"

definition checkSessionMilestones :: "host \<Rightarrow> plugin \<Rightarrow> plugin" where
  "checkSessionMilestones h st =
     (if \<not> celebrateMilestones (settings st) then st
      else
        (let current = getTotalBlogWords h st;
             st1 = st\<lparr>sessionWordsWritten := max 0 (current - sessionStartWordCount st)\<rparr>
         in milestone_loop milestones st1))"

text \<open>
  A session, after \<^verbatim>\<open>onload\<close>: the host fires \<^verbatim>\<open>modify\<close> events on files and the
  30-second timer polls the status file. The redraw of the status bar that both also
  cause is left out; it touches only the daily word count cache.
\<close>

datatype event = Modify host TFile | Poll host

fun handle_event :: "event \<Rightarrow> plugin \<Rightarrow> plugin" where
  "handle_event (Modify h file) st =
     (if isBlogFile st file then checkSessionMilestones h st else st)"
| "handle_event (Poll h) st = loadDispatchStatus h st"

definition run_session :: "event list \<Rightarrow> plugin \<Rightarrow> plugin" where
  "run_session evs st = fold handle_event evs st"

text \<open>The thresholds celebrated so far, in the order of their notices.\<close>

fun celebrated :: "notice list \<Rightarrow> int list" where
  "celebrated [] = []"
| "celebrated (MilestoneNotice m # rest) = m # celebrated rest"
| "celebrated (_ # rest) = celebrated rest"

text \<open>
  The state of the celebrations in a session: the thresholds celebrated so far rise
  strictly, and none is above \<^verbatim>\<open>lastMilestoneCelebrated\<close>. It holds when the plugin is
  loaded, since no notice has been shown then.
\<close>

definition milestone_inv :: "plugin \<Rightarrow> bool" where
  "milestone_inv st =
     (sorted_wrt (<) (celebrated (shown st))
      \<and> list_all (\<lambda>m. m \<le> lastMilestoneCelebrated st) (celebrated (shown st)))"

section \<open>Slugs\<close>

text \<open>
  \<^verbatim>\<open>title.toLowerCase().replace(/[^a-z0-9]+/g, "-").replace(/^-|-$/g, "")\<close>. Characters are
  bytes here; \<^verbatim>\<open>toLowerCase\<close> is modelled on the ASCII letters and leaves every other
  character as it is. The two replacements do not depend on that choice: whatever is not
  in \<^verbatim>\<open>a-z0-9\<close> after lowering becomes part of a hyphen.
\<close>

definition toLowerCase :: "string \<Rightarrow> string" where
  "toLowerCase s =
     map (\<lambda>c. if CHR ''A'' \<le> c \<and> c \<le> CHR ''Z'' then char_of (of_char c + (32::nat)) else c) s"

definition alnum :: "char \<Rightarrow> bool" where
  "alnum c = ((CHR ''a'' \<le> c \<and> c \<le> CHR ''z'') \<or> (CHR ''0'' \<le> c \<and> c \<le> CHR ''9''))"

text \<open>\<^verbatim>\<open>replace(/[^a-z0-9]+/g, "-")\<close>: every maximal run of other characters becomes one hyphen.\<close>

function replace_runs :: "string \<Rightarrow> string" where
  "replace_runs [] = []"
| "replace_runs (c # cs) =
     (if alnum c then c # replace_runs cs
      else CHR ''-'' # replace_runs (dropWhile (\<lambda>x. \<not> alnum x) cs))"
  by pat_completeness auto
termination
  by (relation "measure length") (auto simp: le_imp_less_Suc length_dropWhile_le)

text \<open>
  \<^verbatim>\<open>replace(/^-|-$/g, "")\<close>: a hyphen at the start is removed, and then a hyphen at the end
  of what follows it.
\<close>

definition trim_hyphens :: "string \<Rightarrow> string" where
  "trim_hyphens s =
     (let s1 = (case s of [] \<Rightarrow> [] | c # cs \<Rightarrow> if c = CHR ''-'' then cs else s)
      in if s1 \<noteq> [] \<and> last s1 = CHR ''-'' then butlast s1 else s1)"

definition slugify :: "string \<Rightarrow> string" where
  "slugify post_title = trim_hyphens (replace_runs (toLowerCase post_title))"

text \<open>
  The shape of a slug: lowercase letters, digits and hyphens only, no two hyphens in a
  row, no hyphen first or last.
\<close>

fun single_hyphens :: "string \<Rightarrow> bool" where
  "single_hyphens (a # b # rest) = (\<not> (a = CHR ''-'' \<and> b = CHR ''-'') \<and> single_hyphens (b # rest))"
| "single_hyphens _ = True"

definition slug_shaped :: "string \<Rightarrow> bool" where
  "slug_shaped s =
     (list_all (\<lambda>c. alnum c \<or> c = CHR ''-'') s \<and> single_hyphens s
      \<and> (case s of [] \<Rightarrow> True | c # cs \<Rightarrow> c \<noteq> CHR ''-'' \<and> last s \<noteq> CHR ''-''))"

text \<open>Concrete values used to run the definitions.\<close>

definition settings0 :: DispatchSettings where
  "settings0 = \<lparr>blogFolder = ''blog'', enableStreaks = True, celebrateMilestones = True,
     sessionWordCount = True\<rparr>"

definition plugin0 :: plugin where
  "plugin0 = \<lparr>settings = settings0, dispatchStatus = None, dispatchQueue = None,
     dailyWordCountCache = 0, dailyWordCountDate = [], sessionStartWordCount = 0,
     sessionWordsWritten = 0, lastMilestoneCelebrated = 0,
     streakData = \<lparr>dates = [], publishDates = []\<rparr>, shown = []\<rparr>"

definition host0 :: host where
  "host0 = \<lparr>now_ms = 1000000000, now_iso = ''2026-11-02T10:00:00.000Z'',
     date_ms = (\<lambda>s. None), today = \<lparr>year = 2026, month = 11, day = 2\<rparr>,
     day_start = 999000000, day_end = 1085399999,
     getAbstractFileByPath = (\<lambda>p. None), getMarkdownFiles = [],
     sections = (\<lambda>p. None), vault_read = (\<lambda>p. None), json_status = (\<lambda>s. None),
     vault_write_ok = True\<rparr>"

definition file_a :: TFile where
  "file_a = \<lparr>file_path = ''blog/a.md'', file_name = ''a.md'', stat_mtime = 1000000000,
     stat_size = 50\<rparr>"

definition queue_a :: "string list \<Rightarrow> (string \<rightharpoonup> string) \<Rightarrow> plugin" where
  "queue_a r n = plugin0\<lparr>dispatchQueue :=
     Some \<lparr>queue_updated_at = ''2026-11-01T00:00:00.000Z'', ready = r, queue_notes = n\<rparr>\<rparr>"

definition streak_a :: plugin where
  "streak_a = plugin0\<lparr>streakData :=
     \<lparr>dates = [''2026-11-02'', ''2026-10-31'', ''2026-11-01'', ''2025-12-31''],
      publishDates = []\<rparr>\<rparr>"

definition host_next_day :: host where
  "host_next_day = host0\<lparr>today := \<lparr>year = 2026, month = 11, day = 3\<rparr>\<rparr>"

definition status_a :: DispatchStatus where
  "status_a = \<lparr>updated_at = ''2026-11-02T09:55:00.000Z'', last_publish = Some ''old-post'',
     files = [\<lparr>path = ''blog/a.md'', slug = ''a'', title = None, published_url = None,
               warnings = [], word_count = 7, is_safe = True, unlisted = False,
               has_password = False, modified = 1000000000\<rparr>],
     stats = \<lparr>total = 1, drafts = 1, published = 0, total_words = 7\<rparr>\<rparr>"

definition held_a :: plugin where
  "held_a = plugin0\<lparr>dispatchStatus := Some status_a\<rparr>"

text \<open>A host whose clock is a given number of milliseconds after \<open>status_a\<close> was written.\<close>

definition host_after :: "int \<Rightarrow> host" where
  "host_after age = host0\<lparr>date_ms :=
     (\<lambda>s. if s = ''2026-11-02T09:55:00.000Z'' then Some (1000000000 - age) else None)\<rparr>"

text \<open>A host whose status file reads and parses to a given snapshot.\<close>

definition status_file :: TFile where
  "status_file = \<lparr>file_path = ''.dispatch/status.json'', file_name = ''status.json'',
     stat_mtime = 1000000000, stat_size = 400\<rparr>"

definition host_status :: "DispatchStatus \<Rightarrow> host" where
  "host_status s = host0\<lparr>
     getAbstractFileByPath :=
       (\<lambda>p. if p = ''.dispatch/status.json'' then Some (File status_file) else None),
     vault_read := (\<lambda>p. if p = ''.dispatch/status.json'' then Some ''{}'' else None),
     json_status := (\<lambda>c. if c = ''{}'' then Some s else None)\<rparr>"

text \<open>A host whose only blog file has a given size in bytes.\<close>

definition host_words :: "int \<Rightarrow> host" where
  "host_words n = host0\<lparr>getMarkdownFiles := [file_a\<lparr>stat_size := n\<rparr>]\<rparr>"

text \<open>
  A host ten minutes after \<open>status_a\<close> was written, whose vault holds \<^verbatim>\<open>blog/a.md\<close>,
  modified today, with one paragraph of three lines.
\<close>

definition host_stale :: host where
  "host_stale = (host_after (10 * 60 * 1000))\<lparr>
     getAbstractFileByPath := (\<lambda>p. if p = ''blog/a.md'' then Some (File file_a) else None),
     getMarkdownFiles := [file_a],
     sections := (\<lambda>p. if p = ''blog/a.md''
        then Some [\<lparr>section_type = ''paragraph'', start_line = 0, end_line = 2\<rparr>] else None)\<rparr>"

section \<open>Queue properties\<close>

lemma dispatchQueue_show_notice [simp]:
  "dispatchQueue (after_save h (show_notice n) st) = dispatchQueue st"
  by (simp add: show_notice_def after_save_def)

lemma dispatchQueue_save [simp]:
  "dispatchQueue (saveDispatchQueue h st) =
     map_option (\<lambda>q. q\<lparr>queue_updated_at := now_iso h\<rparr>) (dispatchQueue st)"
  by (simp add: saveDispatchQueue_def split: option.splits)

lemma ready_markReady:
  "ready_of (markReady h f note st) =
     (let r = (case ready_of st of None \<Rightarrow> [] | Some r \<Rightarrow> r)
      in Some (if file_path f \<in> set r then r else r @ [file_path f]))"
  by (simp add: ready_of_def markReady_def empty_queue_def Let_def split: option.splits)

lemma ready_markReady_present:
  "ready_of st = Some r \<Longrightarrow> file_path f \<in> set r \<Longrightarrow> ready_of (markReady h f note st) = Some r"
  by (simp add: ready_markReady)

lemma notes_markReady:
  "notes_of (markReady h f note st) =
     (let n = (case notes_of st of None \<Rightarrow> Map.empty | Some n \<Rightarrow> n)
      in Some (n(file_path f \<mapsto> (if truthy note then the note else ''Ready for review''))))"
  by (simp add: notes_of_def markReady_def empty_queue_def Let_def split: option.splits)

lemma ready_unmarkReady:
  "ready_of (unmarkReady h f st) =
     map_option (filter (\<lambda>p. p \<noteq> file_path f)) (ready_of st)"
  by (simp add: ready_of_def unmarkReady_def Let_def split: option.splits)

lemma notes_unmarkReady:
  "notes_of (unmarkReady h f st) = map_option (\<lambda>n. n(file_path f := None)) (notes_of st)"
  by (simp add: notes_of_def unmarkReady_def Let_def split: option.splits)

lemma filter_neq_absent: "p \<notin> set r \<Longrightarrow> filter (\<lambda>x. x \<noteq> p) r = r"
  by (induction r) auto

text \<open>
  C10. The queue invariant (every key of \<^verbatim>\<open>notes\<close> is an element of \<^verbatim>\<open>ready\<close>) is
  preserved by both queue mutations: if it holds before \<^verbatim>\<open>markReady\<close> or
  \<^verbatim>\<open>unmarkReady\<close>, for any file and any optional note, it holds afterwards.
\<close>

theorem queue_inv_preserved:
  "queue_inv st \<Longrightarrow> queue_inv (markReady h f note st) \<and> queue_inv (unmarkReady h f st)"
  by (auto simp: queue_inv_def markReady_def unmarkReady_def empty_queue_def Let_def
           split: option.splits if_splits)

theorem queue_inv_preserved_witness:
  "queue_inv (queue_a [''blog/b.md''] [''blog/b.md'' \<mapsto> ''final pass''])
   \<and> queue_inv (markReady host0 file_a None
        (queue_a [''blog/b.md''] [''blog/b.md'' \<mapsto> ''final pass'']))
   \<and> queue_inv (unmarkReady host0 file_a
        (queue_a [''blog/b.md''] [''blog/b.md'' \<mapsto> ''final pass'']))"
proof -
  have inv: "queue_inv (queue_a [''blog/b.md''] [''blog/b.md'' \<mapsto> ''final pass''])"
    by (simp add: queue_inv_def queue_a_def)
  from queue_inv_preserved [OF inv, of host0 file_a None] inv show ?thesis
    by simp
qed

lemma count_list_append_one:
  "count_list (r @ [p]) x = count_list r x + (if p = x then 1 else 0)"
  by (induction r) auto

lemma count_list_absent: "p \<notin> set r \<Longrightarrow> count_list r p = 0"
  by (induction r) auto

lemma count_list_present: "p \<in> set r \<Longrightarrow> 0 < count_list r p"
  by (induction r) auto

text \<open>
  C3, as stated, fails: \<^verbatim>\<open>unmarkReady\<close> removes the path and its note whether or not
  \<^verbatim>\<open>markReady\<close> added them. On a queue that already lists \<^verbatim>\<open>blog/a.md\<close> with the note
  \<^verbatim>\<open>final pass\<close>, marking and unmarking that file leaves \<^verbatim>\<open>ready\<close> empty and the
  note gone.
\<close>

theorem mark_unmark_roundtrip_counterexample:
  "ready_of (unmarkReady host0 file_a (markReady host0 file_a None
      (queue_a [''blog/a.md''] [''blog/a.md'' \<mapsto> ''final pass''])))
     \<noteq> ready_of (queue_a [''blog/a.md''] [''blog/a.md'' \<mapsto> ''final pass''])
   \<and> notes_of (unmarkReady host0 file_a (markReady host0 file_a None
      (queue_a [''blog/a.md''] [''blog/a.md'' \<mapsto> ''final pass''])))
     \<noteq> notes_of (queue_a [''blog/a.md''] [''blog/a.md'' \<mapsto> ''final pass''])"
proof -
  let ?st = "queue_a [''blog/a.md''] [''blog/a.md'' \<mapsto> ''final pass'']"
  have r: "ready_of ?st = Some [''blog/a.md'']"
    by (simp add: ready_of_def queue_a_def)
  have n: "notes_of ?st = Some [''blog/a.md'' \<mapsto> ''final pass'']"
    by (simp add: notes_of_def queue_a_def)
  have "[''blog/a.md'' \<mapsto> ''final pass''] ''blog/a.md'' \<noteq> None"
    by simp
  then have ne: "(\<lambda>x. None) \<noteq> [''blog/a.md'' \<mapsto> ''final pass'']"
    by metis
  have "ready_of (unmarkReady host0 file_a (markReady host0 file_a None ?st)) = Some []"
    by (simp add: ready_unmarkReady ready_markReady r file_a_def)
  moreover
  have "notes_of (unmarkReady host0 file_a (markReady host0 file_a None ?st))
      = Some Map.empty"
    by (simp add: notes_unmarkReady notes_markReady n file_a_def)
  ultimately show ?thesis
    using ne by (simp add: r n)
qed

text \<open>
  C3, amended. For every held queue in which the path is neither an element of
  \<^verbatim>\<open>ready\<close> nor a key of \<^verbatim>\<open>notes\<close>, \<^verbatim>\<open>markReady\<close> followed by \<^verbatim>\<open>unmarkReady\<close> of
  that path leaves \<^verbatim>\<open>ready\<close> and \<^verbatim>\<open>notes\<close> equal to their values before the
  \<^verbatim>\<open>markReady\<close> call.
\<close>

theorem mark_unmark_roundtrip:
  assumes "dispatchQueue st = Some q"
    and "file_path f \<notin> set (ready q)"
    and "queue_notes q (file_path f) = None"
  shows "ready_of (unmarkReady hb f (markReady ha f nt st)) = ready_of st
       \<and> notes_of (unmarkReady hb f (markReady ha f nt st)) = notes_of st"
proof -
  have r: "ready_of st = Some (ready q)"
    using assms(1) by (simp add: ready_of_def)
  have n: "notes_of st = Some (queue_notes q)"
    using assms(1) by (simp add: notes_of_def)
  have "ready_of (unmarkReady hb f (markReady ha f nt st)) = Some (ready q)"
    using assms(2)
    by (simp add: ready_unmarkReady ready_markReady r filter_neq_absent)
  moreover have "notes_of (unmarkReady hb f (markReady ha f nt st)) = Some (queue_notes q)"
    using assms(3)
    by (simp add: notes_unmarkReady notes_markReady n fun_upd_idem)
  ultimately show ?thesis
    by (simp add: r n)
qed

theorem mark_unmark_roundtrip_witness:
  "ready_of (unmarkReady host0 file_a (markReady host0 file_a (Some ''draft two'')
      (queue_a [''blog/b.md''] [''blog/b.md'' \<mapsto> ''final pass''])))
     = Some [''blog/b.md'']
   \<and> notes_of (unmarkReady host0 file_a (markReady host0 file_a (Some ''draft two'')
      (queue_a [''blog/b.md''] [''blog/b.md'' \<mapsto> ''final pass''])))
     = Some [''blog/b.md'' \<mapsto> ''final pass'']"
proof -
  let ?q = "\<lparr>queue_updated_at = ''2026-11-01T00:00:00.000Z'', ready = [''blog/b.md''],
             queue_notes = [''blog/b.md'' \<mapsto> ''final pass'']\<rparr>"
  let ?st = "queue_a [''blog/b.md''] [''blog/b.md'' \<mapsto> ''final pass'']"
  have a: "dispatchQueue ?st = Some ?q"
    by (simp add: queue_a_def)
  have b: "file_path file_a \<notin> set (ready ?q)"
    by (simp add: file_a_def)
  have c: "queue_notes ?q (file_path file_a) = None"
    by (simp add: file_a_def)
  from mark_unmark_roundtrip [OF a b c, where ha = host0 and hb = host0
      and nt = "Some ''draft two''"] show ?thesis
    by (simp add: ready_of_def notes_of_def a)
qed

text \<open>
  C8, as stated, fails in two ways. A queue read from \<^verbatim>\<open>queue.json\<close> may list a path
  twice, and \<^verbatim>\<open>markReady\<close> only refrains from adding: the path stays twice in
  \<^verbatim>\<open>ready\<close>. And an empty second note is falsy, so the default string is stored in
  its place.
\<close>

theorem markReady_twice_counterexample:
  "map_option (\<lambda>r. count_list r ''blog/a.md'')
     (ready_of (markReady host0 file_a (Some ''second'') (markReady host0 file_a (Some ''first'')
        (queue_a [''blog/a.md'', ''blog/a.md''] Map.empty)))) = Some 2
   \<and> map_option (\<lambda>n. n ''blog/a.md'')
     (notes_of (markReady host0 file_a (Some []) (markReady host0 file_a (Some ''first'')
        (queue_a [] Map.empty)))) = Some (Some ''Ready for review'')"
proof -
  have "ready_of (queue_a [''blog/a.md'', ''blog/a.md''] Map.empty)
      = Some [''blog/a.md'', ''blog/a.md'']"
    by (simp add: ready_of_def queue_a_def)
  then have "ready_of (markReady host0 file_a (Some ''second'')
      (markReady host0 file_a (Some ''first'')
        (queue_a [''blog/a.md'', ''blog/a.md''] Map.empty)))
      = Some [''blog/a.md'', ''blog/a.md'']"
    by (simp add: ready_markReady file_a_def)
  then show ?thesis
    by (simp add: notes_markReady file_a_def truthy_def)
qed

text \<open>
  C8, amended. For every plugin state whose queue (if one is held) lists the path at most
  once, \<^verbatim>\<open>markReady(p, note1)\<close> followed by \<^verbatim>\<open>markReady(p, note2)\<close> with a non-empty
  second note leaves the path exactly once in \<^verbatim>\<open>ready\<close> with \<^verbatim>\<open>notes[p]\<close> equal to
  the second note; and a \<^verbatim>\<open>markReady\<close> call with no note sets \<^verbatim>\<open>notes[p]\<close> to
  \<^verbatim>\<open>"Ready for review"\<close>.
\<close>

theorem markReady_twice:
  assumes "\<And>q. dispatchQueue st = Some q \<Longrightarrow> count_list (ready q) (file_path f) \<le> 1"
    and "nb \<noteq> []"
  shows "map_option (\<lambda>r. count_list r (file_path f))
           (ready_of (markReady hb f (Some nb) (markReady ha f na st))) = Some 1
       \<and> map_option (\<lambda>n. n (file_path f))
           (notes_of (markReady hb f (Some nb) (markReady ha f na st)))
             = Some (Some nb)
       \<and> map_option (\<lambda>n. n (file_path f))
           (notes_of (markReady ha f None st)) = Some (Some ''Ready for review'')"
proof -
  let ?p = "file_path f"
  let ?st1 = "markReady ha f na st"
  obtain r1 where r1: "ready_of ?st1 = Some r1" and c1: "count_list r1 ?p = 1"
  proof (cases "dispatchQueue st")
    case None
    then have "ready_of st = None"
      by (simp add: ready_of_def)
    then have "ready_of ?st1 = Some [?p]"
      by (simp add: ready_markReady)
    then show ?thesis using that by simp
  next
    case (Some q)
    then have r: "ready_of st = Some (ready q)"
      by (simp add: ready_of_def)
    show ?thesis
    proof (cases "?p \<in> set (ready q)")
      case True
      then have "ready_of ?st1 = Some (ready q)"
        by (simp add: ready_markReady r)
      moreover have "count_list (ready q) ?p = 1"
        using assms(1) [OF Some] count_list_present [OF True] by simp
      ultimately show ?thesis using that by simp
    next
      case False
      then have "ready_of ?st1 = Some (ready q @ [?p])"
        by (simp add: ready_markReady r)
      moreover have "count_list (ready q @ [?p]) ?p = 1"
        using False by (simp add: count_list_append_one count_list_absent)
      ultimately show ?thesis using that by simp
    qed
  qed
  have mem: "?p \<in> set r1"
    using c1 count_list_absent [of ?p r1] by fastforce
  have "ready_of (markReady hb f (Some nb) ?st1) = Some r1"
    by (rule ready_markReady_present [OF r1 mem])
  then have A: "map_option (\<lambda>r. count_list r ?p)
      (ready_of (markReady hb f (Some nb) ?st1)) = Some 1"
    using c1 by simp
  have B: "map_option (\<lambda>n. n ?p) (notes_of (markReady hb f (Some nb) ?st1))
      = Some (Some nb)"
    using assms(2) by (simp add: notes_markReady truthy_def Let_def)
  have C: "map_option (\<lambda>n. n ?p) (notes_of (markReady ha f None st))
      = Some (Some ''Ready for review'')"
    by (simp add: notes_markReady truthy_def Let_def)
  from A B C show ?thesis by simp
qed

theorem markReady_twice_witness:
  "map_option (\<lambda>r. count_list r ''blog/a.md'')
     (ready_of (markReady host0 file_a (Some ''second'') (markReady host0 file_a (Some ''first'')
        (queue_a [''blog/a.md''] Map.empty)))) = Some 1
   \<and> map_option (\<lambda>n. n ''blog/a.md'')
     (notes_of (markReady host0 file_a (Some ''second'') (markReady host0 file_a (Some ''first'')
        (queue_a [''blog/a.md''] Map.empty)))) = Some (Some ''second'')"
proof -
  have a: "\<And>q. dispatchQueue (queue_a [''blog/a.md''] Map.empty) = Some q
      \<Longrightarrow> count_list (ready q) (file_path file_a) \<le> 1"
    by (auto simp: queue_a_def file_a_def)
  have b: "''second'' \<noteq> []"
    by simp
  from markReady_twice [OF a b, where ha = host0 and hb = host0
      and na = "Some ''first''"] show ?thesis
    by (simp add: file_a_def)
qed

section \<open>Properties of calendar days\<close>

subsection \<open>Digits and zero-filled numbers\<close>

lemma of_char_digit_char: "n < 10 \<Longrightarrow> (of_char (digit_char n) :: nat) = 48 + n"
  by (simp add: digit_char_def)

lemma is_digit_digit_char: "n < 10 \<Longrightarrow> is_digit (digit_char n)"
  by (simp add: is_digit_def of_char_digit_char)

lemma digit_val_digit_char: "n < 10 \<Longrightarrow> digit_val (digit_char n) = n"
  by (simp add: digit_val_def of_char_digit_char)

lemma digit_char_digit_val: "is_digit c \<Longrightarrow> digit_char (digit_val c) = c"
  by (simp add: is_digit_def digit_val_def digit_char_def)

lemma digit_val_less: "is_digit c \<Longrightarrow> digit_val c < 10"
  by (auto simp add: is_digit_def digit_val_def)

lemma digit_char_less: "a < 10 \<Longrightarrow> b < 10 \<Longrightarrow> digit_char a < digit_char b \<longleftrightarrow> a < b"
  by (simp add: less_char_def of_char_digit_char)

lemma digit_char_eq: "a < 10 \<Longrightarrow> b < 10 \<Longrightarrow> digit_char a = digit_char b \<longleftrightarrow> a = b"
  by (metis digit_val_digit_char)

lemma digits_lt_aux:
  "r1 < 10 \<Longrightarrow> r2 < 10 \<Longrightarrow> (10 * q1 + r1 < 10 * q2 + r2) \<longleftrightarrow> q1 < q2 \<or> (q1 = q2 \<and> r1 < r2)"
  for q1 q2 r1 r2 :: nat
  by linarith

lemma digits_eq_aux:
  "r1 < 10 \<Longrightarrow> r2 < 10 \<Longrightarrow> (10 * q1 + r1 = 10 * q2 + r2) \<longleftrightarrow> q1 = q2 \<and> r1 = r2"
  for q1 q2 r1 r2 :: nat
  using digits_lt_aux [of r1 r2 q1 q2] digits_lt_aux [of r2 r1 q2 q1]
  by (metis add.commute less_irrefl nat_neq_iff)

lemma div10_less: "n < 10 ^ Suc w \<Longrightarrow> n div 10 < 10 ^ w" for n :: nat
  by (simp add: less_mult_imp_div_less mult.commute)

lemma less_by_digits:
  "m < n \<longleftrightarrow> m div 10 < n div 10 \<or> (m div 10 = n div 10 \<and> m mod 10 < n mod 10)"
  for m n :: nat
  using digits_lt_aux [of "m mod 10" "n mod 10" "m div 10" "n div 10"] by simp

lemma eq_by_digits: "m = n \<longleftrightarrow> m div 10 = n div 10 \<and> m mod 10 = n mod 10"
  for m n :: nat
  using digits_eq_aux [of "m mod 10" "n mod 10" "m div 10" "n div 10"] by simp

lemma snoc_less_snoc:
  "length xs = length ys \<Longrightarrow>
     xs @ [a] < ys @ [b] \<longleftrightarrow> xs < ys \<or> (xs = ys \<and> a < b)"
  for xs ys :: "'a::linorder list"
  by (induction xs ys rule: list_induct2) auto

lemma append_less_append:
  "length xs = length ys \<Longrightarrow>
     xs @ us < ys @ vs \<longleftrightarrow> xs < ys \<or> (xs = ys \<and> us < vs)"
  for xs ys :: "'a::linorder list"
  by (induction xs ys rule: list_induct2) auto

lemma zeroFill_digit: "n < 10 \<Longrightarrow> zeroFill n (Suc 0) = [digit_char n]"
  by (subst zeroFill.simps) simp

lemma zeroFill_Suc:
  "0 < w \<Longrightarrow> zeroFill n (Suc w) = zeroFill (n div 10) w @ [digit_char (n mod 10)]"
  by (subst zeroFill.simps) simp

lemma length_zeroFill: "0 < w \<Longrightarrow> n < 10 ^ w \<Longrightarrow> length (zeroFill n w) = w"
proof (induction w arbitrary: n)
  case 0
  then show ?case by simp
next
  case (Suc w)
  show ?case
  proof (cases "w = 0")
    case True
    with Suc.prems show ?thesis by (simp add: zeroFill_digit)
  next
    case False
    have "n div 10 < 10 ^ w"
      using Suc.prems(2) by (rule div10_less)
    with False Suc.IH show ?thesis by (simp add: zeroFill_Suc)
  qed
qed

lemma zeroFill_order:
  "0 < w \<Longrightarrow> m < 10 ^ w \<Longrightarrow> n < 10 ^ w \<Longrightarrow>
     (zeroFill m w < zeroFill n w \<longleftrightarrow> m < n) \<and> (zeroFill m w = zeroFill n w \<longleftrightarrow> m = n)"
proof (induction w arbitrary: m n)
  case 0
  then show ?case by simp
next
  case (Suc w)
  show ?case
  proof (cases "w = 0")
    case True
    with Suc.prems show ?thesis
      by (simp add: zeroFill_digit digit_char_less digit_char_eq)
  next
    case False
    have m: "m div 10 < 10 ^ w"
      using Suc.prems(2) by (rule div10_less)
    have n: "n div 10 < 10 ^ w"
      using Suc.prems(3) by (rule div10_less)
    have len: "length (zeroFill (m div 10) w) = length (zeroFill (n div 10) w)"
      using False m n by (simp add: length_zeroFill)
    note lt = less_by_digits [of m n] and eq = eq_by_digits [of m n]
    have ih: "(zeroFill (m div 10) w < zeroFill (n div 10) w \<longleftrightarrow> m div 10 < n div 10)
        \<and> (zeroFill (m div 10) w = zeroFill (n div 10) w \<longleftrightarrow> m div 10 = n div 10)"
      using Suc.IH [OF _ m n] False by simp
    show ?thesis
      using False ih
      by (simp add: zeroFill_Suc snoc_less_snoc [OF len] digit_char_less digit_char_eq)
         (use lt eq in blast)
  qed
qed

lemma number_snoc: "number (xs @ [c]) = 10 * number xs + digit_val c"
  by (simp add: number_def)

lemma number_less: "list_all is_digit xs \<Longrightarrow> number xs < 10 ^ length xs"
proof (induction xs rule: rev_induct)
  case Nil
  then show ?case by (simp add: number_def)
next
  case (snoc c xs)
  then have "number xs < 10 ^ length xs" and "digit_val c < 10"
    by (simp_all add: digit_val_less)
  then have "10 * number xs + digit_val c < 10 * 10 ^ length xs"
    by linarith
  then show ?case by (simp add: number_snoc)
qed

lemma zeroFill_number:
  "xs \<noteq> [] \<Longrightarrow> list_all is_digit xs \<Longrightarrow> zeroFill (number xs) (length xs) = xs"
proof (induction xs rule: rev_induct)
  case Nil
  then show ?case by simp
next
  case (snoc c xs)
  then have c: "is_digit c" and xs: "list_all is_digit xs"
    by simp_all
  have v: "digit_val c < 10"
    using c by (rule digit_val_less)
  show ?case
  proof (cases "xs = []")
    case True
    then show ?thesis
      using v c by (simp add: number_def zeroFill_digit digit_char_digit_val)
  next
    case False
    then have "zeroFill (number xs) (length xs) = xs"
      using snoc.IH xs by simp
    then show ?thesis
      using False v c by (simp add: number_snoc zeroFill_Suc digit_char_digit_val)
  qed
qed

lemma number_zeroFill: "0 < w \<Longrightarrow> n < 10 ^ w \<Longrightarrow> number (zeroFill n w) = n"
proof (induction w arbitrary: n)
  case 0
  then show ?case by simp
next
  case (Suc w)
  show ?case
  proof (cases "w = 0")
    case True
    with Suc.prems show ?thesis
      by (simp add: zeroFill_digit number_def digit_val_digit_char)
  next
    case False
    have "n div 10 < 10 ^ w"
      using Suc.prems(2) by (rule div10_less)
    then have "number (zeroFill (n div 10) w) = n div 10"
      using Suc.IH False by simp
    then show ?thesis
      using False by (simp add: zeroFill_Suc number_snoc digit_val_digit_char)
  qed
qed

lemma all_digits_zeroFill: "0 < w \<Longrightarrow> n < 10 ^ w \<Longrightarrow> list_all is_digit (zeroFill n w)"
proof (induction w arbitrary: n)
  case 0
  then show ?case by simp
next
  case (Suc w)
  show ?case
  proof (cases "w = 0")
    case True
    with Suc.prems show ?thesis
      by (simp add: zeroFill_digit is_digit_digit_char)
  next
    case False
    have "n div 10 < 10 ^ w"
      using Suc.prems(2) by (rule div10_less)
    then show ?thesis
      using Suc.IH False by (simp add: zeroFill_Suc is_digit_digit_char)
  qed
qed

subsection \<open>Printing and reading days\<close>

lemma date_shape:
  assumes "length s = 10"
  shows "s = take 4 s @ s ! 4 # take 2 (drop 5 s) @ s ! 7 # drop 8 s"
proof -
  have a: "s = take 4 s @ s ! 4 # drop 5 s"
    using assms id_take_nth_drop [of 4 s] by simp
  have "drop 5 s = take 2 (drop 5 s) @ drop 5 s ! 2 # drop 3 (drop 5 s)"
    using assms id_take_nth_drop [of 2 "drop 5 s"] by simp
  then have b: "drop 5 s = take 2 (drop 5 s) @ s ! 7 # drop 8 s"
    using assms by simp
  show ?thesis
    using a b by simp
qed

lemma parse_date_shape:
  assumes "length Y = 4" "length M = 2" "length D = 2"
  shows "parse_date (Y @ CHR ''-'' # M @ CHR ''-'' # D) =
     (if list_all is_digit Y \<and> list_all is_digit M \<and> list_all is_digit D
      then (let d = \<lparr>year = int (number Y), month = number M, day = number D\<rparr>
            in if calendar_day d then Some d else None)
      else None)"
  using assms by (simp add: parse_date_def nth_append)

lemma daysInMonth_le: "daysInMonth y m \<le> 31"
  by (simp add: daysInMonth_def)

lemma format_four_digit_year:
  assumes "four_digit_year d"
  shows "format_date d =
     zeroFill (nat (year d)) 4 @ CHR ''-'' # zeroFill (month d) 2 @ CHR ''-'' # zeroFill (day d) 2"
  using assms by (simp add: format_date_def format_year_def four_digit_year_def)

lemma four_digit_year_bounds:
  assumes "four_digit_year d"
  shows "nat (year d) < 10 ^ 4" and "month d < 10 ^ 2" and "day d < 10 ^ 2"
proof -
  have "year d \<le> 9999"
    using assms by (simp add: four_digit_year_def)
  then have "nat (year d) < 10000"
    by linarith
  then show "nat (year d) < 10 ^ 4"
    by simp
  show "month d < 10 ^ 2"
    using assms by (simp add: four_digit_year_def calendar_day_def)
  have "day d \<le> 31"
    using assms daysInMonth_le [of "year d" "month d"]
    by (simp add: four_digit_year_def calendar_day_def)
  then show "day d < 10 ^ 2"
    by simp
qed

text \<open>What \<open>parse_date\<close> reads is a calendar day that prints back as the string read.\<close>

lemma parse_date_format:
  assumes "parse_date s = Some d"
  shows "four_digit_year d \<and> format_date d = s"
proof -
  let ?Y = "take 4 s" and ?M = "take 2 (drop 5 s)" and ?D = "drop 8 s"
  from assms have len: "length s = 10" and h1: "s ! 4 = CHR ''-''" and h2: "s ! 7 = CHR ''-''"
    and dy: "list_all is_digit ?Y" and dm: "list_all is_digit ?M" and dd: "list_all is_digit ?D"
    by (simp_all add: parse_date_def split: if_splits)
  have d: "d = \<lparr>year = int (number ?Y), month = number ?M, day = number ?D\<rparr>"
    and cal: "calendar_day d"
    using assms by (auto simp add: parse_date_def Let_def split: if_splits)
  have ly: "length ?Y = 4" and lm: "length ?M = 2" and ld: "length ?D = 2"
    using len by simp_all
  have "number ?Y < 10 ^ length ?Y"
    using dy by (rule number_less)
  then have ny: "number ?Y < 10000"
    using ly by simp
  have ney: "?Y \<noteq> []" and nem: "?M \<noteq> []" and ned: "?D \<noteq> []"
    using len by auto
  have fy: "zeroFill (number ?Y) 4 = ?Y"
    using zeroFill_number [OF ney dy] unfolding ly .
  have fm: "zeroFill (number ?M) 2 = ?M"
    using zeroFill_number [OF nem dm] unfolding lm .
  have fd: "zeroFill (number ?D) 2 = ?D"
    using zeroFill_number [OF ned dd] unfolding ld .
  have four: "four_digit_year d"
    using cal ny d by (simp add: four_digit_year_def)
  have "format_date d = ?Y @ CHR ''-'' # ?M @ CHR ''-'' # ?D"
    using format_four_digit_year [OF four] fy fm fd by (simp add: d)
  also have "\<dots> = s"
    using date_shape [OF len] h1 h2 by simp
  finally show ?thesis
    using four by simp
qed

text \<open>A calendar day whose print can be read is read back as itself.\<close>

lemma format_date_parse:
  assumes "calendar_day d" and "parse_date (format_date d) = Some e"
  shows "e = d"
proof -
  have neg: "\<not> year d < 0"
  proof
    assume "year d < 0"
    then have "format_date d = CHR ''-'' # zeroFill (nat (- year d)) 4 @ ''-''
        @ zeroFill (month d) 2 @ ''-'' @ zeroFill (day d) 2"
      by (simp add: format_date_def format_year_def)
    then have "parse_date (format_date d) = None"
      by (simp add: parse_date_def is_digit_def)
    with assms(2) show False by simp
  qed
  have big: "\<not> 9999 < year d"
  proof
    assume "9999 < year d"
    then have "format_date d = CHR ''+'' # zeroFill (nat (year d)) 1 @ ''-''
        @ zeroFill (month d) 2 @ ''-'' @ zeroFill (day d) 2"
      by (simp add: format_date_def format_year_def)
    then have "parse_date (format_date d) = None"
      by (simp add: parse_date_def is_digit_def)
    with assms(2) show False by simp
  qed
  have four: "four_digit_year d"
    using assms(1) neg big by (simp add: four_digit_year_def)
  note b = four_digit_year_bounds [OF four]
  have ly: "length (zeroFill (nat (year d)) 4) = 4"
    and lm: "length (zeroFill (month d) 2) = 2"
    and ld: "length (zeroFill (day d) 2) = 2"
    using b by (simp_all add: length_zeroFill)
  have "parse_date (format_date d) =
      Some \<lparr>year = int (nat (year d)), month = month d, day = day d\<rparr>"
    using assms(1) neg b
    by (simp add: format_four_digit_year [OF four] parse_date_shape [OF ly lm ld]
          all_digits_zeroFill number_zeroFill calendar_day_def)
  with assms(2) have "e = \<lparr>year = int (nat (year d)), month = month d, day = day d\<rparr>"
    by simp
  with neg show ?thesis
    by (cases d) simp
qed

lemma isBefore_subtract_day: "isBefore (subtract_day d) d"
  by (simp add: isBefore_def subtract_day_def)

lemma daysInMonth_ge: "28 \<le> daysInMonth y m"
  by (simp add: daysInMonth_def)

lemma calendar_day_subtract_day:
  assumes "calendar_day d"
  shows "calendar_day (subtract_day d)"
proof -
  consider "1 < day d" | "\<not> 1 < day d" "1 < month d" | "\<not> 1 < day d" "\<not> 1 < month d"
    by blast
  then show ?thesis
  proof cases
    case 1
    then show ?thesis
      using assms by (simp add: calendar_day_def subtract_day_def) arith
  next
    case 2
    have "28 \<le> daysInMonth (year d) (month d - 1)"
      by (rule daysInMonth_ge)
    then show ?thesis
      using 2 assms by (simp add: calendar_day_def subtract_day_def) arith
  next
    case 3
    have "daysInMonth (year d - 1) 12 = 31"
      by (simp add: daysInMonth_def)
    then show ?thesis
      using 3 by (simp add: calendar_day_def subtract_day_def)
  qed
qed

lemma isBefore_trans: "isBefore a b \<Longrightarrow> isBefore b c \<Longrightarrow> isBefore a c"
  by (auto simp add: isBefore_def)

lemma isBefore_irrefl: "\<not> isBefore a a"
  by (simp add: isBefore_def)

lemma isBefore_funpow: "isBefore ((subtract_day ^^ Suc k) d) d"
proof (induction k)
  case 0
  show ?case by (simp add: isBefore_subtract_day)
next
  case (Suc k)
  have "isBefore ((subtract_day ^^ Suc (Suc k)) d) ((subtract_day ^^ Suc k) d)"
    using isBefore_subtract_day [of "(subtract_day ^^ Suc k) d"] by simp
  then show ?case
    using Suc.IH by (rule isBefore_trans)
qed

lemma calendar_day_funpow: "calendar_day d \<Longrightarrow> calendar_day ((subtract_day ^^ k) d)"
  by (induction k) (simp_all add: calendar_day_subtract_day)

text \<open>On printed days the order of strings is the order of days.\<close>

lemma format_date_less:
  assumes a: "four_digit_year a" and b: "four_digit_year b" and lt: "isBefore a b"
  shows "format_date a < format_date b"
proof -
  note ba = four_digit_year_bounds [OF a] and bb = four_digit_year_bounds [OF b]
  have ly: "length (zeroFill (nat (year a)) 4) = length (zeroFill (nat (year b)) 4)"
    using ba(1) bb(1) by (simp add: length_zeroFill)
  have lm: "length (zeroFill (month a) 2) = length (zeroFill (month b) 2)"
    using ba(2) bb(2) by (simp add: length_zeroFill)
  have oy: "(zeroFill (nat (year a)) 4 < zeroFill (nat (year b)) 4 \<longleftrightarrow> nat (year a) < nat (year b))
      \<and> (zeroFill (nat (year a)) 4 = zeroFill (nat (year b)) 4 \<longleftrightarrow> nat (year a) = nat (year b))"
    using zeroFill_order [OF _ ba(1) bb(1)] by simp
  have om: "(zeroFill (month a) 2 < zeroFill (month b) 2 \<longleftrightarrow> month a < month b)
      \<and> (zeroFill (month a) 2 = zeroFill (month b) 2 \<longleftrightarrow> month a = month b)"
    using zeroFill_order [OF _ ba(2) bb(2)] by simp
  have od: "(zeroFill (day a) 2 < zeroFill (day b) 2 \<longleftrightarrow> day a < day b)"
    using zeroFill_order [OF _ ba(3) bb(3)] by simp
  have ya: "0 \<le> year a" and yb: "0 \<le> year b"
    using a b by (simp_all add: four_digit_year_def)
  have "nat (year a) < nat (year b) \<or> (nat (year a) = nat (year b) \<and>
      (month a < month b \<or> (month a = month b \<and> day a < day b)))"
    using lt ya yb by (auto simp add: isBefore_def)
  then show ?thesis
    by (simp add: format_four_digit_year [OF a] format_four_digit_year [OF b]
          append_less_append [OF ly] append_less_append [OF lm] oy om od)
qed

lemma parse_date_less:
  assumes "parse_date s = Some a" and "parse_date t = Some b" and "isBefore a b"
  shows "s < t"
  using format_date_less [of a b] parse_date_format [OF assms(1)]
    parse_date_format [OF assms(2)] assms(3) by auto

section \<open>Properties of the writing streak\<close>

lemma read_back:
  assumes "calendar_day c" and "parse_date (format_date c) \<noteq> None"
  shows "parse_date (format_date c) = Some c"
  using assms format_date_parse [of c] by auto

lemma streak_loop_run:
  assumes "sorted_wrt (\<lambda>a b. b \<le> a) ds"
    and "\<forall>s\<in>set ds. parse_date s \<noteq> None"
    and "calendar_day e"
    and "\<forall>k<N. format_date ((subtract_day ^^ k) e) \<in> set ds"
    and "format_date ((subtract_day ^^ N) e) \<notin> set ds"
  shows "streak_loop ds e n = n + N"
  using assms
proof (induction ds arbitrary: e n N)
  case Nil
  then have "N = 0" by auto
  then show ?case by simp
next
  case (Cons s ss)
  from Cons.prems(2) obtain d where d: "parse_date s = Some d"
    by auto
  have sorted: "sorted_wrt (\<lambda>a b. b \<le> a) ss" and below: "\<forall>x\<in>set ss. x \<le> s"
    using Cons.prems(1) by simp_all
  have wf: "\<forall>x\<in>set ss. parse_date x \<noteq> None"
    using Cons.prems(2) by simp
  have reads: "parse_date (format_date ((subtract_day ^^ k) e)) = Some ((subtract_day ^^ k) e)"
    if "k < N" for k
  proof (rule read_back)
    show "calendar_day ((subtract_day ^^ k) e)"
      using Cons.prems(3) by (rule calendar_day_funpow)
    show "parse_date (format_date ((subtract_day ^^ k) e)) \<noteq> None"
      using Cons.prems(2,4) that by blast
  qed
  consider (same) "d = e" | (before) "d \<noteq> e" "isBefore d e" | (after) "d \<noteq> e" "\<not> isBefore d e"
    by blast
  then show ?case
  proof cases
    case same
    have s: "s = format_date e"
      using parse_date_format [OF d] same by simp
    have "N \<noteq> 0"
    proof
      assume "N = 0"
      then have "format_date e \<notin> set (s # ss)"
        using Cons.prems(5) by simp
      then show False
        using s by simp
    qed
    then obtain M where N: "N = Suc M"
      by (cases N) auto
    have in_ss: "format_date ((subtract_day ^^ k) (subtract_day e)) \<in> set ss" if "k < M" for k
    proof -
      let ?c = "(subtract_day ^^ Suc k) e"
      have k: "Suc k < N"
        using that N by simp
      have mem: "format_date ?c \<in> set (s # ss)"
        using Cons.prems(4) k by blast
      have "format_date ?c \<noteq> s"
      proof
        assume "format_date ?c = s"
        then have "Some ?c = Some e"
          using reads [OF k] d same by simp
        then have "isBefore e e"
          using isBefore_funpow [of k e] by simp
        then show False
          by (simp add: isBefore_irrefl)
      qed
      with mem show ?thesis
        by (simp add: funpow_swap1)
    qed
    have out: "format_date ((subtract_day ^^ M) (subtract_day e)) \<notin> set ss"
      using Cons.prems(5) N by (simp add: funpow_swap1)
    have "streak_loop ss (subtract_day e) (n + 1) = (n + 1) + M"
      using sorted wf calendar_day_subtract_day [OF Cons.prems(3)] in_ss out
      by (intro Cons.IH) auto
    then show ?thesis
      using d same N by simp
  next
    case before
    have "N = 0"
    proof (rule ccontr)
      assume "N \<noteq> 0"
      then have zero: "0 < N" by simp
      have e: "parse_date (format_date e) = Some e"
        using reads [OF zero] by simp
      have "format_date e \<in> set (s # ss)"
        using Cons.prems(4) zero by force
      moreover have "format_date e \<noteq> s"
        using e d before(1) by auto
      ultimately have "format_date e \<le> s"
        using below by auto
      moreover have "s < format_date e"
        using d e before(2) by (rule parse_date_less)
      ultimately show False by simp
    qed
    then show ?thesis
      using d before by simp
  next
    case after
    have in_ss: "format_date ((subtract_day ^^ k) e) \<in> set ss" if "k < N" for k
    proof -
      let ?c = "(subtract_day ^^ k) e"
      have mem: "format_date ?c \<in> set (s # ss)"
        using Cons.prems(4) that by blast
      have "format_date ?c \<noteq> s"
      proof
        assume "format_date ?c = s"
        then have c: "?c = d"
          using reads [OF that] d by simp
        show False
        proof (cases k)
          case 0
          with c after(1) show False by simp
        next
          case (Suc j)
          then have "isBefore d e"
            using isBefore_funpow [of j e] c by simp
          with after(2) show False by simp
        qed
      qed
      with mem show ?thesis by simp
    qed
    have out: "format_date ((subtract_day ^^ N) e) \<notin> set ss"
      using Cons.prems(5) by simp
    have "streak_loop ss e n = n + N"
      using sorted wf Cons.prems(3) in_ss out
      by (intro Cons.IH) auto
    then show ?thesis
      using d after by simp
  qed
qed

lemma streak_of_run:
  assumes "\<forall>s\<in>set (dates (streakData st)). parse_date s \<noteq> None"
    and "calendar_day (today h)"
    and "\<forall>k<N. format_date ((subtract_day ^^ k) (today h)) \<in> set (dates (streakData st))"
    and "format_date ((subtract_day ^^ N) (today h)) \<notin> set (dates (streakData st))"
  shows "getWritingStreak h st = N"
proof -
  let ?ds = "rev (sort (dates (streakData st)))"
  have set: "set ?ds = set (dates (streakData st))"
    by simp
  have sorted: "sorted_wrt (\<lambda>a b. b \<le> a) ?ds"
    by (simp add: sorted_wrt_rev)
  have "streak_loop ?ds (today h) 0 = 0 + N"
    using sorted assms unfolding set [symmetric] by (rule streak_loop_run)
  moreover have "N = 0" if "?ds = []"
  proof (rule ccontr)
    assume "N \<noteq> 0"
    then have "format_date ((subtract_day ^^ 0) (today h)) \<in> set (dates (streakData st))"
      using assms(3) by blast
    then have "set ?ds \<noteq> {}"
      unfolding set by auto
    with that show False
      by (simp only: list.set)
  qed
  ultimately show ?thesis
    by (auto simp add: getWritingStreak_def Let_def)
qed

text \<open>
  C2. For every streak state whose \<^verbatim>\<open>dates\<close> are \<^verbatim>\<open>YYYY-MM-DD\<close> days (distinct or not),
  \<^verbatim>\<open>getWritingStreak\<close> returns 0 whenever today's date is absent from \<^verbatim>\<open>dates\<close>, and
  returns \<open>N\<close> whenever \<^verbatim>\<open>dates\<close> contains the \<open>N\<close> consecutive calendar days ending
  today and no entry for the \<open>(N+1)\<close>-th day back.
\<close>

theorem writing_streak:
  assumes "\<forall>s\<in>set (dates (streakData st)). parse_date s \<noteq> None"
    and "calendar_day (today h)"
  shows "(format_date (today h) \<notin> set (dates (streakData st)) \<longrightarrow> getWritingStreak h st = 0)
       \<and> ((\<forall>k<N. format_date ((subtract_day ^^ k) (today h)) \<in> set (dates (streakData st)))
            \<and> format_date ((subtract_day ^^ N) (today h)) \<notin> set (dates (streakData st))
          \<longrightarrow> getWritingStreak h st = N)"
proof (intro conjI impI)
  assume "format_date (today h) \<notin> set (dates (streakData st))"
  then show "getWritingStreak h st = 0"
    using streak_of_run [OF assms, of 0] by simp
next
  assume "(\<forall>k<N. format_date ((subtract_day ^^ k) (today h)) \<in> set (dates (streakData st)))
      \<and> format_date ((subtract_day ^^ N) (today h)) \<notin> set (dates (streakData st))"
  then show "getWritingStreak h st = N"
    using streak_of_run [OF assms, of N] by simp
qed

theorem writing_streak_witness:
  "getWritingStreak host0 streak_a = 3 \<and> getWritingStreak host_next_day streak_a = 0"
proof -
  let ?ds = "[''2026-11-02'', ''2026-10-31'', ''2026-11-01'', ''2025-12-31'']"
  have dates: "dates (streakData streak_a) = ?ds"
    by (simp add: streak_a_def)
  have "list_all (\<lambda>s. parse_date s \<noteq> None) ?ds"
    by code_simp
  then have wf: "\<forall>s\<in>set (dates (streakData streak_a)). parse_date s \<noteq> None"
    by (simp add: dates)
  have t0: "today host0 = \<lparr>year = 2026, month = 11, day = 2\<rparr>"
    by (simp add: host0_def)
  have t1: "today host_next_day = \<lparr>year = 2026, month = 11, day = 3\<rparr>"
    by (simp add: host_next_day_def host0_def)
  have c0: "calendar_day (today host0)"
    unfolding t0 by code_simp
  have c1: "calendar_day (today host_next_day)"
    unfolding t1 by code_simp
  have f0: "format_date (today host0) = ''2026-11-02''"
    unfolding t0 by code_simp
  have f1: "format_date (subtract_day (today host0)) = ''2026-11-01''"
    unfolding t0 by code_simp
  have f2: "format_date (subtract_day (subtract_day (today host0))) = ''2026-10-31''"
    unfolding t0 by code_simp
  have f3: "format_date (subtract_day (subtract_day (subtract_day (today host0)))) = ''2026-10-30''"
    unfolding t0 by code_simp
  have g0: "format_date (today host_next_day) = ''2026-11-03''"
    unfolding t1 by code_simp
  have run: "\<forall>k<3. format_date ((subtract_day ^^ k) (today host0))
      \<in> set (dates (streakData streak_a))"
    by (simp add: dates All_less_Suc numeral_3_eq_3 f0 f1 f2)
  have stop: "format_date ((subtract_day ^^ 3) (today host0)) \<notin> set (dates (streakData streak_a))"
    by (simp add: dates numeral_3_eq_3 f3)
  have absent: "format_date (today host_next_day) \<notin> set (dates (streakData streak_a))"
    by (simp add: dates g0)
  from writing_streak [OF wf c0, of 3] run stop
    writing_streak [OF wf c1, of 0] absent
  show ?thesis by blast
qed

section \<open>Properties of the status snapshot\<close>

lemma dispatchStatus_celebratePublish [simp]:
  "dispatchStatus (celebratePublish h s st) = dispatchStatus st"
  by (simp add: celebratePublish_def show_notice_def recordPublishDay_def Let_def)

lemma shown_celebratePublish [simp]:
  "shown (celebratePublish h s st) = shown st @ [PublishNotice s]"
  by (simp add: celebratePublish_def show_notice_def recordPublishDay_def Let_def)

lemma last_kept: "0 < n \<Longrightarrow> x \<in> set (keep_last n (xs @ [x]))"
  by (simp add: keep_last_def)

lemma today_recorded:
  "format_date (today h) \<in> set (publishDates (streakData (recordPublishDay h st)))"
  by (simp add: recordPublishDay_def Let_def last_kept)

lemma today_celebrated:
  "format_date (today h) \<in> set (publishDates (streakData (celebratePublish h s st)))"
  using today_recorded [of h st] by (simp add: celebratePublish_def show_notice_def)

text \<open>A read that rejects and a content that does not parse both clear the snapshot.\<close>

lemma load_failure_clears:
  assumes "getAbstractFileByPath h ''.dispatch/status.json'' = Some (File f)"
    and "vault_read h (file_path f) = None
       \<or> (\<exists>c. vault_read h (file_path f) = Some c \<and> json_status h c = None)"
  shows "dispatchStatus (loadDispatchStatus h st) = None"
    and "dispatchStatus (loadDispatchStatus_plain h st) = None"
  using assms by (auto simp add: loadDispatchStatus_def loadDispatchStatus_plain_def)

text \<open>
  C1. The claim holds of a read or parse failure, but not of an absent file: with no
  \<^verbatim>\<open>.dispatch/status.json\<close> in the vault, \<^verbatim>\<open>getAbstractFileByPath\<close> returns null, the
  \<^verbatim>\<open>if\<close> is skipped without an exception, and a snapshot held before the call is still
  held after it, in both variants of the method.
\<close>

theorem absent_status_file_keeps_snapshot:
  "getAbstractFileByPath host0 ''.dispatch/status.json'' = None
   \<and> dispatchStatus held_a = Some status_a
   \<and> dispatchStatus (loadDispatchStatus host0 held_a) = Some status_a
   \<and> dispatchStatus (loadDispatchStatus_plain host0 held_a) = Some status_a"
  by (simp add: loadDispatchStatus_def loadDispatchStatus_plain_def host0_def held_a_def)

lemma isDispatchFresh_age:
  "isDispatchFresh h st \<longleftrightarrow> (\<exists>age. snapshot_age h st = Some age \<and> age < 5 * 60 * 1000)"
  by (auto simp add: isDispatchFresh_def snapshot_age_def Let_def split: option.splits)

text \<open>
  C5, as stated, fails at the boundary: the comparison is strict, so a snapshot written
  exactly five minutes (300000 ms) ago is not fresh.
\<close>

theorem isDispatchFresh_counterexample:
  "snapshot_age (host_after (5 * 60 * 1000)) held_a = Some (5 * 60 * 1000)
   \<and> isDispatchFresh (host_after (5 * 60 * 1000)) held_a = False"
  by (simp add: isDispatchFresh_def snapshot_age_def host_after_def host0_def held_a_def
        status_a_def)

text \<open>
  C5, amended. \<^verbatim>\<open>isDispatchFresh\<close> returns true if and only if a snapshot is held, its
  \<^verbatim>\<open>updated_at\<close> can be read as a time, and the time elapsed since then is strictly less
  than 5 minutes; in particular it returns false for a snapshot written 10 minutes ago and
  true for one written 1 minute ago.
\<close>

theorem isDispatchFresh_iff:
  "(isDispatchFresh h st \<longleftrightarrow> (\<exists>age. snapshot_age h st = Some age \<and> age < 5 * 60 * 1000))
   \<and> (snapshot_age h st = Some (10 * 60 * 1000) \<longrightarrow> \<not> isDispatchFresh h st)
   \<and> (snapshot_age h st = Some (1 * 60 * 1000) \<longrightarrow> isDispatchFresh h st)"
  by (simp add: isDispatchFresh_age)

theorem isDispatchFresh_iff_witness:
  "\<not> isDispatchFresh (host_after (10 * 60 * 1000)) held_a
   \<and> isDispatchFresh (host_after (1 * 60 * 1000)) held_a"
proof -
  have a: "snapshot_age (host_after (10 * 60 * 1000)) held_a = Some (10 * 60 * 1000)"
    by (simp add: snapshot_age_def host_after_def host0_def held_a_def status_a_def)
  have b: "snapshot_age (host_after (1 * 60 * 1000)) held_a = Some (1 * 60 * 1000)"
    by (simp add: snapshot_age_def host_after_def host0_def held_a_def status_a_def)
  from isDispatchFresh_iff [of "host_after (10 * 60 * 1000)" held_a] a
    isDispatchFresh_iff [of "host_after (1 * 60 * 1000)" held_a] b
  show ?thesis by blast
qed

lemma publish_detected_iff:
  "publish_detected st new \<longleftrightarrow>
     (\<exists>s. last_publish new = Some s \<and> s \<noteq> [] \<and> enableStreaks (settings st)
        \<and> (\<forall>held. dispatchStatus st = Some held \<longrightarrow> last_publish held \<noteq> Some s))"
  by (auto simp add: publish_detected_def truthy_def split: option.splits)

text \<open>
  C7, as stated, fails: the signal also needs streak tracking to be enabled and the new
  \<^verbatim>\<open>last_publish\<close> to be a non-empty slug. With \<^verbatim>\<open>enableStreaks\<close> off, a refresh that
  changes \<^verbatim>\<open>last_publish\<close> from \<^verbatim>\<open>old-post\<close> to \<^verbatim>\<open>new-post\<close> shows nothing and records no
  day; with it on, a refresh that changes \<^verbatim>\<open>last_publish\<close> from \<^verbatim>\<open>old-post\<close> to null
  does neither.
\<close>

theorem publish_signal_counterexample:
  "last_publish status_a = Some ''old-post''
   \<and> shown (loadDispatchStatus (host_status (status_a\<lparr>last_publish := Some ''new-post''\<rparr>))
        (held_a\<lparr>settings := settings0\<lparr>enableStreaks := False\<rparr>\<rparr>)) = []
   \<and> publishDates (streakData
        (loadDispatchStatus (host_status (status_a\<lparr>last_publish := Some ''new-post''\<rparr>))
          (held_a\<lparr>settings := settings0\<lparr>enableStreaks := False\<rparr>\<rparr>))) = []
   \<and> shown (loadDispatchStatus (host_status (status_a\<lparr>last_publish := None\<rparr>)) held_a) = []
   \<and> publishDates (streakData
        (loadDispatchStatus (host_status (status_a\<lparr>last_publish := None\<rparr>)) held_a)) = []"
  by (simp add: loadDispatchStatus_def publish_detected_def truthy_def host_status_def
        host0_def held_a_def plugin0_def settings0_def status_a_def status_file_def)

text \<open>
  C7, amended. For every successful status refresh: if the newly read \<^verbatim>\<open>last_publish\<close> is
  a non-empty slug, streak tracking is enabled, and either no snapshot was held or the
  held \<^verbatim>\<open>last_publish\<close> differs from the new one, then \<^verbatim>\<open>celebratePublish\<close> runs on the
  state that still holds the previous snapshot (it records the publish day and shows the
  notice) and the snapshot is replaced afterwards; in every other case no notice is shown,
  no day is recorded, and the snapshot is replaced.
\<close>

theorem publish_signal:
  assumes "getAbstractFileByPath h ''.dispatch/status.json'' = Some (File f)"
    and "vault_read h (file_path f) = Some content"
    and "json_status h content = Some new"
  shows "(\<forall>s. last_publish new = Some s \<and> s \<noteq> [] \<and> enableStreaks (settings st)
            \<and> (\<forall>held. dispatchStatus st = Some held \<longrightarrow> last_publish held \<noteq> Some s)
          \<longrightarrow> loadDispatchStatus h st = (celebratePublish h s st)\<lparr>dispatchStatus := Some new\<rparr>
            \<and> dispatchStatus (celebratePublish h s st) = dispatchStatus st
            \<and> shown (loadDispatchStatus h st) = shown st @ [PublishNotice s]
            \<and> format_date (today h)
                 \<in> set (publishDates (streakData (loadDispatchStatus h st))))
       \<and> (\<not> (\<exists>s. last_publish new = Some s \<and> s \<noteq> [] \<and> enableStreaks (settings st)
            \<and> (\<forall>held. dispatchStatus st = Some held \<longrightarrow> last_publish held \<noteq> Some s))
          \<longrightarrow> loadDispatchStatus h st = st\<lparr>dispatchStatus := Some new\<rparr>)"
proof (intro conjI allI impI)
  fix s
  assume c: "last_publish new = Some s \<and> s \<noteq> [] \<and> enableStreaks (settings st)
      \<and> (\<forall>held. dispatchStatus st = Some held \<longrightarrow> last_publish held \<noteq> Some s)"
  then have "publish_detected st new"
    unfolding publish_detected_iff by blast
  then have eq: "loadDispatchStatus h st = (celebratePublish h s st)\<lparr>dispatchStatus := Some new\<rparr>"
    using assms c by (simp add: loadDispatchStatus_def)
  show "loadDispatchStatus h st = (celebratePublish h s st)\<lparr>dispatchStatus := Some new\<rparr>"
    by (rule eq)
  show "dispatchStatus (celebratePublish h s st) = dispatchStatus st"
    by simp
  show "shown (loadDispatchStatus h st) = shown st @ [PublishNotice s]"
    by (simp add: eq)
  show "format_date (today h) \<in> set (publishDates (streakData (loadDispatchStatus h st)))"
    using today_celebrated [of h s st] by (simp add: eq)
next
  assume "\<not> (\<exists>s. last_publish new = Some s \<and> s \<noteq> [] \<and> enableStreaks (settings st)
      \<and> (\<forall>held. dispatchStatus st = Some held \<longrightarrow> last_publish held \<noteq> Some s))"
  then have "\<not> publish_detected st new"
    unfolding publish_detected_iff by blast
  then show "loadDispatchStatus h st = st\<lparr>dispatchStatus := Some new\<rparr>"
    using assms by (simp add: loadDispatchStatus_def)
qed

theorem publish_signal_witness:
  "shown (loadDispatchStatus (host_status (status_a\<lparr>last_publish := Some ''new-post''\<rparr>)) held_a)
     = [PublishNotice ''new-post'']
   \<and> shown (loadDispatchStatus (host_status status_a) held_a) = []"
proof -
  let ?new = "status_a\<lparr>last_publish := Some ''new-post''\<rparr>"
  have a: "getAbstractFileByPath (host_status s) ''.dispatch/status.json''
      = Some (File status_file)" for s
    by (simp add: host_status_def)
  have b: "vault_read (host_status s) (file_path status_file) = Some ''{}''" for s
    by (simp add: host_status_def status_file_def)
  have c: "json_status (host_status s) ''{}'' = Some s" for s
    by (simp add: host_status_def)
  have yes: "last_publish ?new = Some ''new-post'' \<and> ''new-post'' \<noteq> []
      \<and> enableStreaks (settings held_a)
      \<and> (\<forall>held. dispatchStatus held_a = Some held \<longrightarrow> last_publish held \<noteq> Some ''new-post'')"
    by (simp add: held_a_def plugin0_def settings0_def status_a_def)
  have no: "\<not> (\<exists>s. last_publish status_a = Some s \<and> s \<noteq> [] \<and> enableStreaks (settings held_a)
      \<and> (\<forall>held. dispatchStatus held_a = Some held \<longrightarrow> last_publish held \<noteq> Some s))"
    by (simp add: held_a_def plugin0_def settings0_def status_a_def)
  have "shown held_a = []"
    by (simp add: held_a_def plugin0_def)
  with publish_signal [OF a b c, of ?new held_a] yes
    publish_signal [OF a b c, of status_a held_a] no
  show ?thesis by auto
qed

section \<open>Properties of the daily word count\<close>

lemma sections_loop_sum:
  "sections_loop secs wordCount = wordCount + 10 * (\<Sum>s \<leftarrow> secs. section_lines s)"
  by (induction secs arbitrary: wordCount) (simp_all add: section_lines_def Let_def)

lemma files_loop_sum:
  "files_loop h fs wordCount =
     wordCount + (\<Sum>file \<leftarrow> filter (modified_today h) fs.
        case sections h (file_path file) of
          None \<Rightarrow> 0
        | Some secs \<Rightarrow> 10 * (\<Sum>s \<leftarrow> secs. section_lines s))"
  by (induction fs arbitrary: wordCount) (simp_all add: sections_loop_sum split: option.splits)

lemma status_loop_sum:
  "status_loop h sfs wordCount =
     wordCount + (\<Sum>sf \<leftarrow> filter (\<lambda>sf. vault_file_modified_today h (path sf)) sfs.
        word_count sf)"
  by (induction sfs arbitrary: wordCount)
     (simp_all add: vault_file_modified_today_def split: option.splits abstract_file.splits)

lemma files_loop_approximation:
  "files_loop h (filter (isBlogFile st) (getMarkdownFiles h)) 0 = line_span_approximation h st"
  by (simp add: files_loop_sum line_span_approximation_def)

lemma status_loop_snapshot: "status_loop h (files s) 0 = snapshot_words_today h s"
  by (simp add: status_loop_sum snapshot_words_today_def)

lemma today_host0: "format_date (today host0) = ''2026-11-02''"
proof -
  have "format_date \<lparr>year = 2026, month = 11, day = 2\<rparr> = ''2026-11-02''"
    by code_simp
  then show ?thesis by (simp add: host0_def)
qed

text \<open>
  C6, as stated, fails: the method asks whether a snapshot is held, not whether it is
  fresh. With a snapshot written ten minutes ago (not fresh) that counts 7 words for
  \<^verbatim>\<open>blog/a.md\<close>, and that file modified today with one three-line paragraph, the method
  returns the snapshot's 7 and not the approximation, 30.
\<close>

theorem daily_word_count_counterexample:
  "isDispatchFresh host_stale held_a = False
   \<and> line_span_approximation host_stale held_a = 30
   \<and> fst (getDailyWordCount host_stale held_a) = 7"
proof -
  have t: "format_date (today host_stale) = ''2026-11-02''"
    using today_host0 by (simp add: host_stale_def host_after_def)
  have a: "isDispatchFresh host_stale held_a = False"
    by (simp add: isDispatchFresh_def host_stale_def host_after_def host0_def held_a_def
          status_a_def)
  have b: "line_span_approximation host_stale held_a = 30"
    by (simp add: line_span_approximation_def host_stale_def host_after_def host0_def
          held_a_def plugin0_def settings0_def isBlogFile_def startsWith_def file_a_def
          modified_today_def section_lines_def)
  have "snapshot_words_today host_stale status_a = 7"
    by (simp add: snapshot_words_today_def vault_file_modified_today_def host_stale_def
          host_after_def host0_def status_a_def file_a_def modified_today_def)
  then have c: "fst (getDailyWordCount host_stale held_a) = 7"
    by (simp add: getDailyWordCount_def t status_loop_snapshot held_a_def plugin0_def)
  from a b c show ?thesis by simp
qed

text \<open>
  C6, amended. When a count is cached for today, \<^verbatim>\<open>getDailyWordCount\<close> returns the cached
  count. Otherwise: for every state in which a snapshot is held, fresh or not, it returns
  the sum of the snapshot's per-file \<^verbatim>\<open>word_count\<close> over the files whose vault file has a
  modification time within today; for every state in which no snapshot is held, it
  returns the line-span approximation (10 words per paragraph or heading line) over the
  blog files modified today.
\<close>

theorem daily_word_count:
  "(dailyWordCountDate st = format_date (today h)
      \<longrightarrow> fst (getDailyWordCount h st) = dailyWordCountCache st)
   \<and> (dailyWordCountDate st \<noteq> format_date (today h)
      \<longrightarrow> (\<forall>s. dispatchStatus st = Some s
              \<longrightarrow> fst (getDailyWordCount h st) = snapshot_words_today h s)
        \<and> (dispatchStatus st = None
              \<longrightarrow> fst (getDailyWordCount h st) = line_span_approximation h st))"
  by (simp add: getDailyWordCount_def Let_def files_loop_approximation status_loop_snapshot)

theorem daily_word_count_witness:
  "fst (getDailyWordCount host_stale held_a) = 7
   \<and> fst (getDailyWordCount host_stale plugin0) = 30
   \<and> fst (getDailyWordCount host_stale
        (plugin0\<lparr>dailyWordCountCache := 12, dailyWordCountDate := ''2026-11-02''\<rparr>)) = 12"
proof -
  have t: "format_date (today host_stale) = ''2026-11-02''"
    using today_host0 by (simp add: host_stale_def host_after_def)
  have d: "dailyWordCountDate held_a \<noteq> format_date (today host_stale)"
    "dailyWordCountDate plugin0 \<noteq> format_date (today host_stale)"
    by (simp_all add: t held_a_def plugin0_def)
  have s: "dispatchStatus held_a = Some status_a" "dispatchStatus plugin0 = None"
    by (simp_all add: held_a_def plugin0_def)
  have w: "snapshot_words_today host_stale status_a = 7"
    by (simp add: snapshot_words_today_def vault_file_modified_today_def host_stale_def
          host_after_def host0_def status_a_def file_a_def modified_today_def)
  have l: "line_span_approximation host_stale plugin0 = 30"
    by (simp add: line_span_approximation_def host_stale_def host_after_def host0_def
          plugin0_def settings0_def isBlogFile_def startsWith_def file_a_def
          modified_today_def section_lines_def)
  from daily_word_count [of held_a host_stale] d(1) s(1) w
  have A: "fst (getDailyWordCount host_stale held_a) = 7"
    by simp
  from daily_word_count [of plugin0 host_stale] d(2) s(2) l
  have B: "fst (getDailyWordCount host_stale plugin0) = 30"
    by simp
  from daily_word_count
    [of "plugin0\<lparr>dailyWordCountCache := 12, dailyWordCountDate := ''2026-11-02''\<rparr>" host_stale] t
  have C: "fst (getDailyWordCount host_stale
      (plugin0\<lparr>dailyWordCountCache := 12, dailyWordCountDate := ''2026-11-02''\<rparr>)) = 12"
    by simp
  from A B C show ?thesis by simp
qed

section \<open>Properties of the session milestones\<close>

lemma celebrated_append: "celebrated (xs @ ys) = celebrated xs @ celebrated ys"
  by (induction xs rule: celebrated.induct) simp_all

text \<open>One pass over the thresholds shows nothing, or one threshold above the last one.\<close>

lemma milestone_loop_step:
  "(shown (milestone_loop ms st) = shown st
      \<and> lastMilestoneCelebrated (milestone_loop ms st) = lastMilestoneCelebrated st)
   \<or> (\<exists>m. lastMilestoneCelebrated st < m
      \<and> shown (milestone_loop ms st) = shown st @ [MilestoneNotice m]
      \<and> lastMilestoneCelebrated (milestone_loop ms st) = m)"
  by (induction ms) (simp_all add: celebrateMilestone_def show_notice_def)

lemma checkSessionMilestones_step:
  "(celebrated (shown (checkSessionMilestones h st)) = celebrated (shown st)
      \<and> lastMilestoneCelebrated (checkSessionMilestones h st) = lastMilestoneCelebrated st)
   \<or> (\<exists>m. lastMilestoneCelebrated st < m
      \<and> celebrated (shown (checkSessionMilestones h st)) = celebrated (shown st) @ [m]
      \<and> lastMilestoneCelebrated (checkSessionMilestones h st) = m)"
proof (cases "celebrateMilestones (settings st)")
  case False
  then show ?thesis by (simp add: checkSessionMilestones_def)
next
  case True
  let ?st1 = "st\<lparr>sessionWordsWritten :=
    max 0 (getTotalBlogWords h st - sessionStartWordCount st)\<rparr>"
  have eq: "checkSessionMilestones h st = milestone_loop milestones ?st1"
    using True by (simp add: checkSessionMilestones_def Let_def)
  from milestone_loop_step [of milestones ?st1] show ?thesis
    unfolding eq by (auto simp add: celebrated_append)
qed

lemma loadDispatchStatus_milestones:
  "celebrated (shown (loadDispatchStatus h st)) = celebrated (shown st)
   \<and> lastMilestoneCelebrated (loadDispatchStatus h st) = lastMilestoneCelebrated st"
  by (simp add: loadDispatchStatus_def celebratePublish_def show_notice_def
        recordPublishDay_def Let_def celebrated_append
      split: option.splits abstract_file.splits)

lemma handle_event_step:
  "(celebrated (shown (handle_event e st)) = celebrated (shown st)
      \<and> lastMilestoneCelebrated (handle_event e st) = lastMilestoneCelebrated st)
   \<or> (\<exists>m. lastMilestoneCelebrated st < m
      \<and> celebrated (shown (handle_event e st)) = celebrated (shown st) @ [m]
      \<and> lastMilestoneCelebrated (handle_event e st) = m)"
proof (cases e)
  case (Modify h f)
  then show ?thesis
    using checkSessionMilestones_step [of h st] by auto
next
  case (Poll h)
  then show ?thesis
    using loadDispatchStatus_milestones [of h st] by simp
qed

text \<open>
  Over a whole run of events: what is celebrated is added at the end, rises strictly, and
  lies above the threshold last celebrated before the run.
\<close>

lemma run_session_later:
  "\<exists>later. celebrated (shown (run_session evs st)) = celebrated (shown st) @ later
     \<and> sorted_wrt (<) later
     \<and> list_all (\<lambda>m. lastMilestoneCelebrated st < m) later
     \<and> lastMilestoneCelebrated st \<le> lastMilestoneCelebrated (run_session evs st)
     \<and> list_all (\<lambda>m. m \<le> lastMilestoneCelebrated (run_session evs st)) later"
proof (induction evs arbitrary: st)
  case Nil
  show ?case by (simp add: run_session_def)
next
  case (Cons e evs)
  let ?st1 = "handle_event e st"
  have run: "run_session (e # evs) st = run_session evs ?st1"
    by (simp add: run_session_def)
  from Cons.IH [of ?st1] obtain later where
    l1: "celebrated (shown (run_session evs ?st1)) = celebrated (shown ?st1) @ later"
    and l2: "sorted_wrt (<) later"
    and l3: "list_all (\<lambda>m. lastMilestoneCelebrated ?st1 < m) later"
    and l4: "lastMilestoneCelebrated ?st1 \<le> lastMilestoneCelebrated (run_session evs ?st1)"
    and l5: "list_all (\<lambda>m. m \<le> lastMilestoneCelebrated (run_session evs ?st1)) later"
    by blast
  from handle_event_step [of e st] show ?case
  proof
    assume "celebrated (shown ?st1) = celebrated (shown st)
      \<and> lastMilestoneCelebrated ?st1 = lastMilestoneCelebrated st"
    then show ?thesis
      using l1 l2 l3 l4 l5 unfolding run by auto
  next
    assume "\<exists>m. lastMilestoneCelebrated st < m
      \<and> celebrated (shown ?st1) = celebrated (shown st) @ [m]
      \<and> lastMilestoneCelebrated ?st1 = m"
    then obtain m where m: "lastMilestoneCelebrated st < m"
      and c: "celebrated (shown ?st1) = celebrated (shown st) @ [m]"
      and n: "lastMilestoneCelebrated ?st1 = m"
      by blast
    have a: "celebrated (shown (run_session evs ?st1)) = celebrated (shown st) @ (m # later)"
      using l1 c by simp
    have b: "sorted_wrt (<) (m # later)"
      using l2 l3 n by (simp add: list_all_iff)
    have d: "list_all (\<lambda>x. lastMilestoneCelebrated st < x) (m # later)"
      using l3 n m by (auto simp add: list_all_iff)
    have e: "lastMilestoneCelebrated st \<le> lastMilestoneCelebrated (run_session evs ?st1)"
      using l4 n m by simp
    have f: "list_all (\<lambda>x. x \<le> lastMilestoneCelebrated (run_session evs ?st1)) (m # later)"
      using l4 l5 n by simp
    show ?thesis
      unfolding run using a b d e f by blast
  qed
qed

lemma run_session_inv:
  assumes "milestone_inv st"
  shows "milestone_inv (run_session evs st)"
proof -
  from run_session_later [of evs st] obtain later where
    l1: "celebrated (shown (run_session evs st)) = celebrated (shown st) @ later"
    and l2: "sorted_wrt (<) later"
    and l3: "list_all (\<lambda>m. lastMilestoneCelebrated st < m) later"
    and l4: "lastMilestoneCelebrated st \<le> lastMilestoneCelebrated (run_session evs st)"
    and l5: "list_all (\<lambda>m. m \<le> lastMilestoneCelebrated (run_session evs st)) later"
    by blast
  have "sorted_wrt (<) (celebrated (shown st) @ later)"
    using assms l2 l3 by (fastforce simp add: milestone_inv_def sorted_wrt_append list_all_iff)
  moreover have "list_all (\<lambda>m. m \<le> lastMilestoneCelebrated (run_session evs st))
      (celebrated (shown st) @ later)"
    using assms l4 l5 by (fastforce simp add: milestone_inv_def list_all_iff)
  ultimately show ?thesis
    by (simp add: milestone_inv_def l1)
qed

lemma check_at_510:
  assumes "celebrateMilestones (settings st)"
    and "lastMilestoneCelebrated st = 250"
    and "getTotalBlogWords h st - sessionStartWordCount st = 510"
  shows "shown (checkSessionMilestones h st) = shown st @ [MilestoneNotice 500]"
  using assms
  by (simp add: checkSessionMilestones_def Let_def milestones_def celebrateMilestone_def
        show_notice_def)

lemma total_host_words:
  assumes "settings st = settings0" and "dispatchStatus st = None"
  shows "getTotalBlogWords (host_words n) st = round_fifth n"
  using assms
  by (simp add: getTotalBlogWords_def host_words_def host0_def settings0_def
        isBlogFile_def startsWith_def file_a_def)

text \<open>
  C4, as stated, fails in its particular case. A check fires only the lowest threshold not
  yet passed. In a fresh session whose first check sees 480 words, that check celebrates
  100; the check at 510 words then celebrates 250, not 500.
\<close>

theorem milestones_counterexample:
  "sessionWordsWritten (run_session [Modify (host_words 2400) file_a] plugin0) = 480
   \<and> sessionWordsWritten
       (run_session [Modify (host_words 2400) file_a, Modify (host_words 2550) file_a] plugin0)
         = 510
   \<and> shown (run_session [Modify (host_words 2400) file_a, Modify (host_words 2550) file_a]
        plugin0) = [MilestoneNotice 100, MilestoneNotice 250]"
proof -
  have blog: "isBlogFile st file_a" if "settings st = settings0" for st
    using that by (simp add: isBlogFile_def startsWith_def file_a_def settings0_def)
  let ?st1 = "plugin0\<lparr>sessionWordsWritten := 480, lastMilestoneCelebrated := 100,
    shown := [MilestoneNotice 100]\<rparr>"
  let ?st2 = "plugin0\<lparr>sessionWordsWritten := 510, lastMilestoneCelebrated := 250,
    shown := [MilestoneNotice 100, MilestoneNotice 250]\<rparr>"
  have "getTotalBlogWords (host_words 2400) plugin0 = 480"
    by (simp add: total_host_words round_fifth_def plugin0_def)
  then have s1: "checkSessionMilestones (host_words 2400) plugin0 = ?st1"
    by (simp add: checkSessionMilestones_def Let_def milestones_def celebrateMilestone_def
          show_notice_def plugin0_def settings0_def)
  have "getTotalBlogWords (host_words 2550) ?st1 = 510"
    by (simp add: total_host_words round_fifth_def plugin0_def)
  then have s2: "checkSessionMilestones (host_words 2550) ?st1 = ?st2"
    by (simp add: checkSessionMilestones_def Let_def milestones_def celebrateMilestone_def
          show_notice_def plugin0_def settings0_def)
  have b0: "isBlogFile plugin0 file_a"
    by (rule blog) (simp add: plugin0_def)
  have b1: "isBlogFile ?st1 file_a"
    by (rule blog) (simp add: plugin0_def)
  have r1: "run_session [Modify (host_words 2400) file_a] plugin0 = ?st1"
    using b0 s1 by (simp add: run_session_def)
  have r2: "run_session [Modify (host_words 2400) file_a, Modify (host_words 2550) file_a]
      plugin0 = ?st2"
    using b0 b1 s1 s2 by (simp add: run_session_def)
  show ?thesis
    unfolding r1 r2 by simp
qed

text \<open>
  C4, amended. Across any sequence of \<^verbatim>\<open>modify\<close> events and status polls within one
  session, every celebration is of a threshold strictly above the one celebrated last, so
  once a threshold has been celebrated no lower or equal threshold is celebrated again,
  whatever the word total does in between; in particular the celebrations of a session
  rise strictly. A check that sees a session total of 510 words fires the 500-word
  celebration when the threshold celebrated last is 250.
\<close>

theorem milestones_never_refire:
  "(\<exists>later. celebrated (shown (run_session evs st)) = celebrated (shown st) @ later
       \<and> sorted_wrt (<) later
       \<and> list_all (\<lambda>m. lastMilestoneCelebrated st < m) later)
   \<and> (milestone_inv st \<longrightarrow> sorted_wrt (<) (celebrated (shown (run_session evs st))))
   \<and> (celebrateMilestones (settings st) \<and> lastMilestoneCelebrated st = 250
        \<and> getTotalBlogWords h st - sessionStartWordCount st = 510
      \<longrightarrow> shown (checkSessionMilestones h st) = shown st @ [MilestoneNotice 500])"
proof (intro conjI impI)
  show "\<exists>later. celebrated (shown (run_session evs st)) = celebrated (shown st) @ later
       \<and> sorted_wrt (<) later
       \<and> list_all (\<lambda>m. lastMilestoneCelebrated st < m) later"
    using run_session_later [of evs st] by blast
next
  assume "milestone_inv st"
  then have "milestone_inv (run_session evs st)"
    by (rule run_session_inv)
  then show "sorted_wrt (<) (celebrated (shown (run_session evs st)))"
    by (simp add: milestone_inv_def)
next
  assume "celebrateMilestones (settings st) \<and> lastMilestoneCelebrated st = 250
      \<and> getTotalBlogWords h st - sessionStartWordCount st = 510"
  then show "shown (checkSessionMilestones h st) = shown st @ [MilestoneNotice 500]"
    using check_at_510 [of st h] by blast
qed

theorem milestones_never_refire_witness:
  "sorted_wrt (<) (celebrated (shown
      (run_session [Modify (host_words 2400) file_a, Modify (host_words 2550) file_a] plugin0)))
   \<and> shown (checkSessionMilestones (host_words 2550)
        (plugin0\<lparr>lastMilestoneCelebrated := 250\<rparr>)) = [MilestoneNotice 500]"
proof -
  let ?st = "plugin0\<lparr>lastMilestoneCelebrated := 250\<rparr>"
  have inv: "milestone_inv plugin0"
    by (simp add: milestone_inv_def plugin0_def)
  have "getTotalBlogWords (host_words 2550) ?st = 510"
    by (simp add: total_host_words round_fifth_def plugin0_def)
  then have c: "celebrateMilestones (settings ?st) \<and> lastMilestoneCelebrated ?st = 250
      \<and> getTotalBlogWords (host_words 2550) ?st - sessionStartWordCount ?st = 510"
    by (simp add: plugin0_def settings0_def)
  have e: "shown ?st = []"
    by (simp add: plugin0_def)
  from milestones_never_refire
    [of "[Modify (host_words 2400) file_a, Modify (host_words 2550) file_a]" plugin0] inv
    milestones_never_refire [of "[]" ?st "host_words 2550"] c e
  show ?thesis by simp
qed

section \<open>Properties of slugs\<close>

lemma alnum_not_hyphen: "alnum c \<Longrightarrow> c \<noteq> CHR ''-''"
  by (auto simp add: alnum_def)

lemma alnum_not_upper: "alnum c \<or> c = CHR ''-'' \<Longrightarrow> \<not> (CHR ''A'' \<le> c \<and> c \<le> CHR ''Z'')"
  by (auto simp add: alnum_def less_eq_char_def)

lemma single_hyphens_Cons:
  "single_hyphens (a # ys) \<longleftrightarrow>
     (ys = [] \<or> \<not> (a = CHR ''-'' \<and> hd ys = CHR ''-'')) \<and> single_hyphens ys"
  by (cases ys) auto

lemma single_hyphens_snoc:
  "single_hyphens (ys @ [a]) \<longleftrightarrow>
     (ys = [] \<or> \<not> (last ys = CHR ''-'' \<and> a = CHR ''-'')) \<and> single_hyphens ys"
proof (induction ys rule: single_hyphens.induct)
  case (1 a b rest)
  then show ?case by (cases rest) auto
qed simp_all

lemma replace_runs_head:
  "xs = [] \<or> alnum (hd xs) \<Longrightarrow> replace_runs xs = [] \<or> alnum (hd (replace_runs xs))"
  by (cases xs) auto

lemma dropWhile_head: "dropWhile P xs = [] \<or> \<not> P (hd (dropWhile P xs))"
  using hd_dropWhile [of P xs] by blast

lemma replace_runs_chars: "list_all (\<lambda>c. alnum c \<or> c = CHR ''-'') (replace_runs s)"
  by (induction s rule: replace_runs.induct) auto

lemma replace_runs_single: "single_hyphens (replace_runs s)"
proof (induction s rule: replace_runs.induct)
  case 1
  show ?case by simp
next
  case (2 c cs)
  show ?case
  proof (cases "alnum c")
    case True
    then show ?thesis
      using 2 by (simp add: single_hyphens_Cons alnum_not_hyphen)
  next
    case False
    let ?rest = "dropWhile (\<lambda>x. \<not> alnum x) cs"
    have "?rest = [] \<or> alnum (hd ?rest)"
      using dropWhile_head [of "\<lambda>x. \<not> alnum x" cs] by simp
    then have "replace_runs ?rest = [] \<or> alnum (hd (replace_runs ?rest))"
      by (rule replace_runs_head)
    then have "replace_runs ?rest = [] \<or> hd (replace_runs ?rest) \<noteq> CHR ''-''"
      using alnum_not_hyphen by blast
    then show ?thesis
      using False 2 by (auto simp add: single_hyphens_Cons)
  qed
qed

text \<open>Without its first hyphen, and then without its last, a string keeps both properties.\<close>

lemma trim_hyphens_cases:
  obtains (keep) "trim_hyphens s = s" "s = [] \<or> (hd s \<noteq> CHR ''-'' \<and> last s \<noteq> CHR ''-'')"
  | (front) r where "s = CHR ''-'' # r" "trim_hyphens s = r" "r = [] \<or> last r \<noteq> CHR ''-''"
  | (rear) r where "s = r @ [CHR ''-'']" "trim_hyphens s = r" "r \<noteq> []" "hd r \<noteq> CHR ''-''"
  | (both) r where "s = CHR ''-'' # r @ [CHR ''-'']" "trim_hyphens s = r"
proof (cases s)
  case Nil
  then show ?thesis
    using keep by (simp add: trim_hyphens_def)
next
  case (Cons c cs)
  show ?thesis
  proof (cases "c = CHR ''-''")
    case True
    show ?thesis
    proof (cases "cs \<noteq> [] \<and> last cs = CHR ''-''")
      case True
      then have "cs = butlast cs @ [CHR ''-'']"
        using append_butlast_last_id [of cs] by simp
      then have "s = CHR ''-'' # butlast cs @ [CHR ''-'']"
        using Cons \<open>c = CHR ''-''\<close> by simp
      moreover have "trim_hyphens s = butlast cs"
        using Cons \<open>c = CHR ''-''\<close> True by (simp add: trim_hyphens_def)
      ultimately show ?thesis
        using both by blast
    next
      case False
      then have "trim_hyphens s = cs"
        using Cons \<open>c = CHR ''-''\<close> by (auto simp add: trim_hyphens_def)
      then show ?thesis
        using front [of cs] Cons \<open>c = CHR ''-''\<close> False by blast
    qed
  next
    case False
    show ?thesis
    proof (cases "last s = CHR ''-''")
      case True
      have ne: "s \<noteq> []"
        using Cons by simp
      have s: "s = butlast s @ [CHR ''-'']"
        using append_butlast_last_id [OF ne] True by simp
      have "butlast s \<noteq> []"
        using s Cons False by (cases "butlast s") auto
      moreover have "hd (butlast s) = c"
        using Cons calculation by (cases cs) auto
      moreover have "trim_hyphens s = butlast s"
        using Cons False True by (simp add: trim_hyphens_def)
      ultimately show ?thesis
        using rear [of "butlast s"] s False by metis
    next
      case nl: False
      have "trim_hyphens s = s"
        using Cons False nl by (simp add: trim_hyphens_def)
      then show ?thesis
        using keep Cons False nl by simp
    qed
  qed
qed

lemma trim_hyphens_shaped:
  assumes chars: "list_all (\<lambda>c. alnum c \<or> c = CHR ''-'') s" and single: "single_hyphens s"
  shows "slug_shaped (trim_hyphens s)"
proof -
  have shaped: "slug_shaped r"
    if "list_all (\<lambda>c. alnum c \<or> c = CHR ''-'') r" "single_hyphens r"
      "r = [] \<or> (hd r \<noteq> CHR ''-'' \<and> last r \<noteq> CHR ''-'')" for r
    using that by (cases r) (auto simp add: slug_shaped_def)
  show ?thesis
  proof (cases s rule: trim_hyphens_cases)
    case keep
    then show ?thesis
      using shaped [of s] chars single by simp
  next
    case (front r)
    have "single_hyphens r" and "r = [] \<or> hd r \<noteq> CHR ''-''"
      using single front(1) by (auto simp add: single_hyphens_Cons)
    then show ?thesis
      using shaped [of r] chars front by auto
  next
    case (rear r)
    have "single_hyphens r" and "last r \<noteq> CHR ''-''"
      using single rear(1,3) by (auto simp add: single_hyphens_snoc)
    then show ?thesis
      using shaped [of r] chars rear by auto
  next
    case (both r)
    have a: "single_hyphens (r @ [CHR ''-''])" and b: "r @ [CHR ''-''] = [] \<or> hd (r @ [CHR ''-'']) \<noteq> CHR ''-''"
      using single both(1) by (auto simp add: single_hyphens_Cons)
    have c: "single_hyphens r" and d: "r = [] \<or> last r \<noteq> CHR ''-''"
      using a by (auto simp add: single_hyphens_snoc)
    have e: "r = [] \<or> hd r \<noteq> CHR ''-''"
      using b by (cases r) auto
    show ?thesis
      using shaped [of r] chars both c d e by auto
  qed
qed

lemma slugify_shaped: "slug_shaped (slugify t)"
  unfolding slugify_def
  by (rule trim_hyphens_shaped) (rule replace_runs_chars, rule replace_runs_single)

text \<open>A string of the shape of a slug is left as it is by each of the three steps.\<close>

lemma toLowerCase_fixed:
  "list_all (\<lambda>c. alnum c \<or> c = CHR ''-'') s \<Longrightarrow> toLowerCase s = s"
  unfolding toLowerCase_def
  by (induction s) (use alnum_not_upper in auto)

lemma replace_runs_fixed:
  "list_all (\<lambda>c. alnum c \<or> c = CHR ''-'') s \<Longrightarrow> single_hyphens s \<Longrightarrow> replace_runs s = s"
proof (induction s)
  case Nil
  show ?case by simp
next
  case (Cons c cs)
  have ih: "replace_runs cs = cs"
    using Cons by (simp add: single_hyphens_Cons)
  show ?case
  proof (cases "alnum c")
    case True
    then show ?thesis using ih by simp
  next
    case False
    then have c: "c = CHR ''-''"
      using Cons.prems(1) by simp
    have "cs = [] \<or> alnum (hd cs)"
      using Cons.prems c by (cases cs) (auto simp add: single_hyphens_Cons)
    then have "dropWhile (\<lambda>x. \<not> alnum x) cs = cs"
      by (cases cs) auto
    then show ?thesis
      using False c ih by simp
  qed
qed

lemma trim_hyphens_fixed: "slug_shaped s \<Longrightarrow> trim_hyphens s = s"
  by (cases s) (auto simp add: slug_shaped_def trim_hyphens_def)

lemma slugify_fixed: "slug_shaped s \<Longrightarrow> slugify s = s"
  by (simp add: slugify_def slug_shaped_def toLowerCase_fixed replace_runs_fixed
        trim_hyphens_fixed)

text \<open>
  C9. For every input string, \<^verbatim>\<open>slugify\<close> returns a string of lowercase ASCII letters,
  digits and single hyphens, with no hyphen first or last; and it is idempotent.
\<close>

theorem slugify_idempotent: "slug_shaped (slugify t) \<and> slugify (slugify t) = slugify t"
  using slugify_shaped [of t] slugify_fixed [of "slugify t"] by simp

theorem slugify_idempotent_witness:
  "slugify ''  Hello, World -- 2nd Post!'' = ''hello-world-2nd-post''
   \<and> slug_shaped ''hello-world-2nd-post''
   \<and> slugify ''hello-world-2nd-post'' = ''hello-world-2nd-post''"
proof -
  have "slugify ''  Hello, World -- 2nd Post!'' = ''hello-world-2nd-post''"
    by code_simp
  with slugify_idempotent [of "''  Hello, World -- 2nd Post!''"] show ?thesis
    by simp
qed

end
